theory Spec2Isabelle
  imports Complex_Main "HOL-Library.AList"
begin

section \<open>Data model\<close>

text \<open>
  The module \<^verbatim>\<open>utils/draw.py\<close> computes a two-level layout of a partitioned graph.
  Nodes and community ids are Python ints (the docstring of \<^verbatim>\<open>community_layout\<close>:
  "dict mapping int node -> int community").  A Python dict is an association list with
  pairwise different keys, in insertion order; \<open>AList.update\<close> is exactly
  \<^verbatim>\<open>d[k] = v\<close>: it overwrites in place when the key is present and appends otherwise.
  The only exception the module can raise by itself is \<^verbatim>\<open>KeyError\<close>.
\<close>

type_synonym node = int
type_synonym community = int
type_synonym ('k, 'v) dict = "('k \<times> 'v) list"

datatype error = KeyError int

text \<open>
  Coordinates are IEEE doubles.  Special values are kept apart from the finite ones;
  a finite value carries the real number it denotes.  Addition overflows to an infinity
  and propagates NaN as the hardware does; the rounding of a finite sum to the nearest
  double is not modelled.
\<close>

datatype float64 = Finite real | PosInf | NegInf | NaN

type_synonym point = "float64 \<times> float64"

definition overflow_threshold :: real where
  "overflow_threshold = 2 ^ 1024 - 2 ^ 970"

fun fadd :: "float64 \<Rightarrow> float64 \<Rightarrow> float64" where
  "fadd (Finite x) (Finite y) =
     (if overflow_threshold \<le> x + y then PosInf
      else if x + y \<le> - overflow_threshold then NegInf
      else Finite (x + y))"
| "fadd NaN _ = NaN"
| "fadd _ NaN = NaN"
| "fadd PosInf NegInf = NaN"
| "fadd NegInf PosInf = NaN"
| "fadd PosInf _ = PosInf"
| "fadd _ PosInf = PosInf"
| "fadd NegInf _ = NegInf"
| "fadd _ NegInf = NegInf"

text \<open>\<^verbatim>\<open>a + b\<close> on two numpy arrays of shape (2,): a new array, component by component.\<close>

fun vadd :: "point \<Rightarrow> point \<Rightarrow> point" where
  "vadd (a1, a2) (b1, b2) = (fadd a1 b1, fadd a2 b2)"

fun is_finite :: "float64 \<Rightarrow> bool" where
  "is_finite (Finite x) = True"
| "is_finite _ = False"

fun finite_point :: "point \<Rightarrow> bool" where
  "finite_point (x, y) = (is_finite x \<and> is_finite y)"

text \<open>
  A networkx graph: whether it is a \<^verbatim>\<open>DiGraph\<close>, its nodes in insertion order, and its
  edges as \<^verbatim>\<open>g.edges(data='weight')\<close> reports them, each with its optional weight.
\<close>

record graph =
  directed :: bool
  nodes :: "node list"
  edges :: "(node \<times> node \<times> real option) list"

text \<open>\<^verbatim>\<open>g.edges()\<close>: the edges as pairs, without their data.\<close>

definition edge_pairs :: "graph \<Rightarrow> (node \<times> node) list" where
  "edge_pairs g = map (\<lambda>(u, v, w). (u, v)) (edges g)"

text \<open>
  The invariant every networkx graph keeps: no node twice, and both ends of every edge
  are nodes of the graph.
\<close>

definition wf_graph :: "graph \<Rightarrow> bool" where
  "wf_graph g \<longleftrightarrow>
     distinct (nodes g) \<and>
     (\<forall>(u, v) \<in> set (edge_pairs g). u \<in> set (nodes g) \<and> v \<in> set (nodes g))"

subsection \<open>The networkx operations the module calls\<close>

text \<open>
  \<^verbatim>\<open>nx.DiGraph()\<close>, \<^verbatim>\<open>add_nodes_from\<close>, \<^verbatim>\<open>add_edge\<close> and \<^verbatim>\<open>subgraph\<close> belong to networkx,
  not to this repository; they are written out here as networkx documents them.
  \<^verbatim>\<open>add_edge\<close> adds missing end points as nodes and, on an edge that exists, replaces
  the attribute.  \<^verbatim>\<open>g.subgraph(nodes)\<close> is the induced subgraph; ids in \<^verbatim>\<open>nodes\<close>
  that are not nodes of \<^verbatim>\<open>g\<close> are dropped without an error.
\<close>

definition empty_digraph :: graph where
  "empty_digraph = \<lparr>directed = True, nodes = [], edges = []\<rparr>"

definition add_node :: "node \<Rightarrow> graph \<Rightarrow> graph" where
  "add_node n g = (if n \<in> set (nodes g) then g else g\<lparr>nodes := nodes g @ [n]\<rparr>)"

definition add_nodes_from :: "node list \<Rightarrow> graph \<Rightarrow> graph" where
  "add_nodes_from ns g = fold add_node ns g"

fun set_edge ::
  "node \<Rightarrow> node \<Rightarrow> real option \<Rightarrow> (node \<times> node \<times> real option) list
     \<Rightarrow> (node \<times> node \<times> real option) list" where
  "set_edge u v w [] = [(u, v, w)]"
| "set_edge u v w ((a, b, x) # es) =
     (if a = u \<and> b = v then (a, b, w) # es else (a, b, x) # set_edge u v w es)"

definition add_edge :: "node \<Rightarrow> node \<Rightarrow> real option \<Rightarrow> graph \<Rightarrow> graph" where
  "add_edge u v w g =
     (let g' = add_node v (add_node u g) in g'\<lparr>edges := set_edge u v w (edges g')\<rparr>)"

definition subgraph :: "graph \<Rightarrow> node list \<Rightarrow> graph" where
  "subgraph g ns =
     \<lparr>directed = directed g,
      nodes = filter (\<lambda>n. n \<in> set ns) (nodes g),
      edges = filter (\<lambda>(u, v, w). u \<in> set ns \<and> v \<in> set ns) (edges g)\<rparr>"

text \<open>
  \<^verbatim>\<open>nx.spring_layout(graph, scale=s)\<close> is the force-directed solver of networkx.  It draws
  its start positions from numpy's global random generator, so the solver is a parameter of
  the model: a function from the generator's state, the graph and the scale to the dict of
  positions and the generator's new state.
\<close>

type_synonym 'r solver = "'r \<Rightarrow> graph \<Rightarrow> real \<Rightarrow> (node, point) dict \<times> 'r"

section \<open>Between-community edges\<close>

text \<open>
  \<^verbatim>\<open>_find_between_community_edges\<close>: the loop over \<^verbatim>\<open>g.edges()\<close>.  \<^verbatim>\<open>partition[ni]\<close>
  raises on a missing node; the \<^verbatim>\<open>KeyError\<close> of \<^verbatim>\<open>edges[(ci, cj)] += ...\<close> is caught and
  starts a new list.
\<close>

fun between_loop ::
  "(node \<times> node) list \<Rightarrow> (node, community) dict
     \<Rightarrow> (community \<times> community, (node \<times> node) list) dict
     \<Rightarrow> error + (community \<times> community, (node \<times> node) list) dict" where
  "between_loop [] part found = Inr found"
| "between_loop ((ni, nj) # rest) part found =
     (case map_of part ni of
        None \<Rightarrow> Inl (KeyError ni)
      | Some ci \<Rightarrow>
          (case map_of part nj of
             None \<Rightarrow> Inl (KeyError nj)
           | Some cj \<Rightarrow>
               if ci \<noteq> cj then
                 (case map_of found (ci, cj) of
                    Some l \<Rightarrow>
                      between_loop rest part (AList.update (ci, cj) (l @ [(ni, nj)]) found)
                  | None \<Rightarrow>
                      between_loop rest part (AList.update (ci, cj) [(ni, nj)] found))
               else between_loop rest part found))"

definition find_between_community_edges ::
  "graph \<Rightarrow> (node, community) dict
     \<Rightarrow> error + (community \<times> community, (node \<times> node) list) dict" where
  "find_between_community_edges g part = between_loop (edge_pairs g) part []"

section \<open>Positions of the communities\<close>

text \<open>
  The meta-graph of \<^verbatim>\<open>_position_communities\<close>: a \<^verbatim>\<open>DiGraph\<close> over
  \<^verbatim>\<open>set(partition.values())\<close> with one edge per key of the crossing-edge dict, weighted
  by the length of its list.  The iteration order of a Python set is not specified; the
  order \<open>remdups\<close> gives (every id at its last occurrence) stands for it, and no property
  below depends on it.
\<close>

fun add_weighted_edges ::
  "(community \<times> community, (node \<times> node) list) dict \<Rightarrow> graph \<Rightarrow> graph" where
  "add_weighted_edges [] hypergraph = hypergraph"
| "add_weighted_edges (((ci, cj), es) # rest) hypergraph =
     add_weighted_edges rest (add_edge ci cj (Some (real (length es))) hypergraph)"

definition build_hypergraph ::
  "(node, community) dict \<Rightarrow> (community \<times> community, (node \<times> node) list) dict \<Rightarrow> graph" where
  "build_hypergraph part between_community_edges =
     (let communities = remdups (map snd part)
      in add_weighted_edges between_community_edges
           (add_nodes_from communities empty_digraph))"

text \<open>The last loop of \<^verbatim>\<open>_position_communities\<close>: every node gets its community's position.\<close>

fun assign_anchors ::
  "(node, community) dict \<Rightarrow> (community, point) dict \<Rightarrow> (node, point) dict
     \<Rightarrow> error + (node, point) dict" where
  "assign_anchors [] pos_communities pos = Inr pos"
| "assign_anchors ((node, community) # rest) pos_communities pos =
     (case map_of pos_communities community of
        None \<Rightarrow> Inl (KeyError community)
      | Some a \<Rightarrow> assign_anchors rest pos_communities (AList.update node a pos))"

definition position_communities ::
  "'r solver \<Rightarrow> 'r \<Rightarrow> graph \<Rightarrow> (node, community) dict \<Rightarrow> real
     \<Rightarrow> (error + (node, point) dict) \<times> 'r" where
  "position_communities sl r g part scale =
     (case find_between_community_edges g part of
        Inl e \<Rightarrow> (Inl e, r)
      | Inr between_community_edges \<Rightarrow>
          (case sl r (build_hypergraph part between_community_edges) scale of
             (pos_communities, r') \<Rightarrow> (assign_anchors part pos_communities [], r')))"

section \<open>Positions of the nodes within their communities\<close>

text \<open>The first loop of \<^verbatim>\<open>_position_nodes\<close>: the members of every community, in dict order.\<close>

fun group_loop ::
  "(node, community) dict \<Rightarrow> (community, node list) dict \<Rightarrow> (community, node list) dict" where
  "group_loop [] communities = communities"
| "group_loop ((node, community) # rest) communities =
     (case map_of communities community of
        Some l \<Rightarrow> group_loop rest (AList.update community (l @ [node]) communities)
      | None \<Rightarrow> group_loop rest (AList.update community [node] communities))"

text \<open>\<^verbatim>\<open>pos.update(pos_subgraph)\<close>.\<close>

definition dict_update :: "('k, 'v) dict \<Rightarrow> ('k, 'v) dict \<Rightarrow> ('k, 'v) dict" where
  "dict_update pos new = fold (\<lambda>(k, v). AList.update k v) new pos"

text \<open>
  The second loop: one solver call per community, on the induced subgraph, each call
  starting from the random state the call before it left.
\<close>

fun layout_loop ::
  "'r solver \<Rightarrow> graph \<Rightarrow> real \<Rightarrow> (community, node list) dict \<Rightarrow> (node, point) dict \<Rightarrow> 'r
     \<Rightarrow> (node, point) dict \<times> 'r" where
  "layout_loop sl g scale [] pos r = (pos, r)"
| "layout_loop sl g scale ((ci, ns) # rest) pos r =
     (case sl r (subgraph g ns) scale of
        (pos_subgraph, r') \<Rightarrow> layout_loop sl g scale rest (dict_update pos pos_subgraph) r')"

definition position_nodes ::
  "'r solver \<Rightarrow> 'r \<Rightarrow> graph \<Rightarrow> (node, community) dict \<Rightarrow> real \<Rightarrow> (node, point) dict \<times> 'r" where
  "position_nodes sl r g part scale =
     layout_loop sl g scale (group_loop part []) [] r"

section \<open>The composed layout\<close>

text \<open>The loop of \<^verbatim>\<open>community_layout\<close> over \<^verbatim>\<open>g.nodes()\<close>; both lookups can raise.\<close>

fun combine_loop ::
  "node list \<Rightarrow> (node, point) dict \<Rightarrow> (node, point) dict \<Rightarrow> (node, point) dict
     \<Rightarrow> error + (node, point) dict" where
  "combine_loop [] pos_communities pos_nodes pos = Inr pos"
| "combine_loop (node # rest) pos_communities pos_nodes pos =
     (case map_of pos_communities node of
        None \<Rightarrow> Inl (KeyError node)
      | Some a \<Rightarrow>
          (case map_of pos_nodes node of
             None \<Rightarrow> Inl (KeyError node)
           | Some b \<Rightarrow>
               combine_loop rest pos_communities pos_nodes (AList.update node (vadd a b) pos)))"

definition inter_scale :: real where "inter_scale = 3"
definition intra_scale :: real where "intra_scale = 1"

definition community_layout ::
  "'r solver \<Rightarrow> 'r \<Rightarrow> graph \<Rightarrow> (node, community) dict \<Rightarrow> (error + (node, point) dict) \<times> 'r" where
  "community_layout sl r g part =
     (case position_communities sl r g part inter_scale of
        (Inl e, r1) \<Rightarrow> (Inl e, r1)
      | (Inr pos_communities, r1) \<Rightarrow>
          (case position_nodes sl r1 g part intra_scale of
             (pos_nodes, r2) \<Rightarrow> (combine_loop (nodes g) pos_communities pos_nodes [], r2)))"

section \<open>Specification-side notions\<close>

text \<open>
  What the crossing-edge dict is meant to hold for the ordered pair \<open>(ci, cj)\<close>: the edges
  whose first end lies in \<open>ci\<close> and whose second end lies in \<open>cj\<close>, in the order of
  \<^verbatim>\<open>g.edges()\<close>; a pair has an entry iff the two ids differ and that list is not empty.
\<close>

definition crossing ::
  "(node, community) dict \<Rightarrow> (node \<times> node) list \<Rightarrow> community \<Rightarrow> community
     \<Rightarrow> (node \<times> node) list" where
  "crossing part es ci cj =
     filter (\<lambda>(u, v). map_of part u = Some ci \<and> map_of part v = Some cj) es"

definition crossing_entry ::
  "(node, community) dict \<Rightarrow> (node \<times> node) list \<Rightarrow> community \<times> community
     \<Rightarrow> (node \<times> node) list option" where
  "crossing_entry part es k =
     (case k of (ci, cj) \<Rightarrow>
        if ci \<noteq> cj \<and> crossing part es ci cj \<noteq> [] then Some (crossing part es ci cj)
        else None)"

text \<open>The meta-graph edge that one entry of the crossing-edge dict becomes.\<close>

definition weighted ::
  "(community \<times> community) \<times> (node \<times> node) list \<Rightarrow> community \<times> community \<times> real option" where
  "weighted = (\<lambda>((ci, cj), es). (ci, cj, Some (real (length es))))"

definition members :: "(node, community) dict \<Rightarrow> community \<Rightarrow> node list" where
  "members part c = map fst (filter (\<lambda>(n, c'). c' = c) part)"

definition members_entry :: "(node, community) dict \<Rightarrow> community \<Rightarrow> node list option" where
  "members_entry part c = (if members part c = [] then None else Some (members part c))"

text \<open>
  What the module relies on from \<^verbatim>\<open>nx.spring_layout\<close>: the result is a dict with exactly
  one position for every node of the graph it was given.
\<close>

definition solver_contract :: "'r solver \<Rightarrow> bool" where
  "solver_contract sl \<longleftrightarrow>
     (\<forall>r g s. distinct (map fst (fst (sl r g s))) \<and> fst ` set (fst (sl r g s)) = set (nodes g))"

text \<open>
  The random state with which the second loop of \<^verbatim>\<open>_position_nodes\<close> calls the solver
  for community \<open>c\<close>: the state the calls for the communities before it have left.
\<close>

fun rng_at ::
  "'r solver \<Rightarrow> graph \<Rightarrow> real \<Rightarrow> (community, node list) dict \<Rightarrow> 'r \<Rightarrow> community \<Rightarrow> 'r" where
  "rng_at sl g scale [] r c = r"
| "rng_at sl g scale ((ci, ns) # rest) r c =
     (if ci = c then r else rng_at sl g scale rest (snd (sl r (subgraph g ns) scale)) c)"

text \<open>
  The bound the specification gives for the solver: every coordinate is a finite number
  of magnitude at most the scale.
\<close>

fun bounded_by :: "real \<Rightarrow> float64 \<Rightarrow> bool" where
  "bounded_by s (Finite x) = (\<bar>x\<bar> \<le> s)"
| "bounded_by s _ = False"

definition solver_bounded :: "'r solver \<Rightarrow> bool" where
  "solver_bounded sl \<longleftrightarrow>
     (\<forall>r g s n x y. 0 \<le> s \<longrightarrow> (n, (x, y)) \<in> set (fst (sl r g s)) \<longrightarrow> bounded_by s x \<and> bounded_by s y)"

text \<open>The partition covers the graph: every node of the graph is a key of the partition dict.\<close>

definition covers :: "(node, community) dict \<Rightarrow> graph \<Rightarrow> bool" where
  "covers part g \<longleftrightarrow> distinct (map fst part) \<and> set (nodes g) \<subseteq> fst ` set part"

text \<open>
  The example of the specification: edges (1,2), (2,3), (3,4) and the partition
  1:A, 2:A, 3:B, 4:B, with 0 for A and 1 for B.
\<close>

definition example_graph :: graph where
  "example_graph =
     \<lparr>directed = False, nodes = [1, 2, 3, 4], edges = [(1, 2, None), (2, 3, None), (3, 4, None)]\<rparr>"

definition example_partition :: "(node, community) dict" where
  "example_partition = [(1, 0), (2, 0), (3, 1), (4, 1)]"

text \<open>
  A stand-in for the solver, used to run the model on concrete inputs: it spreads the nodes
  on a line inside the scale, the spacing depending on the random state (a counter).
\<close>

definition line_solver :: "nat solver" where
  "line_solver r g s =
     (let ns = remdups (nodes g)
      in (map (\<lambda>(i, n). (n, (Finite (s * real i / real (length ns + r)), Finite 0)))
            (enumerate 0 ns),
          Suc r))"


text \<open>
  A second stand-in for the solver, with both coordinates different from zero: node number
  \<open>i\<close> of \<open>k\<close> is placed at \<open>(s * i / (k + r), - s * (i + 1) / (k + 1 + r))\<close>.
\<close>

definition slant_solver :: "nat solver" where
  "slant_solver r g s =
     (let ns = remdups (nodes g)
      in (map (\<lambda>(i, n). (n, (Finite (s * real i / real (length ns + r)),
                                Finite (- (s * real (Suc i) / real (Suc (length ns) + r))))))
            (enumerate 0 ns),
          Suc r))"










section \<open>Dicts and graphs: basic facts\<close>


lemma lookup_key: "map_of xs k = Some v \<Longrightarrow> k \<in> fst ` set xs"
  by (metis map_of_eq_None_iff option.distinct(1))

subsection \<open>graph operations\<close>

lemma nodes_add_node: "set (nodes (add_node n g)) = insert n (set (nodes g))"
  by (auto simp: add_node_def)

lemma edges_add_node: "edges (add_node n g) = edges g"
  by (simp add: add_node_def)

lemma distinct_add_node: "distinct (nodes g) \<Longrightarrow> distinct (nodes (add_node n g))"
  by (simp add: add_node_def)

lemma nodes_add_nodes_from: "set (nodes (add_nodes_from ns g)) = set ns \<union> set (nodes g)"
  unfolding add_nodes_from_def
  by (induction ns arbitrary: g) (auto simp: nodes_add_node)

lemma edges_add_nodes_from: "edges (add_nodes_from ns g) = edges g"
  unfolding add_nodes_from_def
  by (induction ns arbitrary: g) (auto simp: edges_add_node)

lemma distinct_add_nodes_from: "distinct (nodes g) \<Longrightarrow> distinct (nodes (add_nodes_from ns g))"
  unfolding add_nodes_from_def
  by (induction ns arbitrary: g) (auto simp: distinct_add_node)

lemma set_edge_fresh:
  "(u, v) \<notin> (\<lambda>(a, b, x). (a, b)) ` set es \<Longrightarrow> set_edge u v w es = es @ [(u, v, w)]"
  by (induction es) auto

lemma nodes_add_edge: "set (nodes (add_edge u v w g)) = {u, v} \<union> set (nodes g)"
  by (auto simp: add_edge_def Let_def nodes_add_node)

lemma distinct_add_edge: "distinct (nodes g) \<Longrightarrow> distinct (nodes (add_edge u v w g))"
  by (simp add: add_edge_def Let_def distinct_add_node)

lemma edges_add_edge: "edges (add_edge u v w g) = set_edge u v w (edges g)"
  by (simp add: add_edge_def Let_def edges_add_node)

lemma nodes_add_weighted_edges:
  "set (nodes (add_weighted_edges bce h)) =
     set (nodes h) \<union> (fst ` fst ` set bce) \<union> (snd ` fst ` set bce)"
  by (induction bce h rule: add_weighted_edges.induct) (auto simp: nodes_add_edge)

lemma distinct_add_weighted_edges:
  "distinct (nodes h) \<Longrightarrow> distinct (nodes (add_weighted_edges bce h))"
  by (induction bce h rule: add_weighted_edges.induct) (auto simp: distinct_add_edge)

lemma edges_add_weighted_edges:
  "distinct (map fst bce) \<Longrightarrow> fst ` set bce \<inter> (\<lambda>(a, b, x). (a, b)) ` set (edges h) = {}
     \<Longrightarrow> edges (add_weighted_edges bce h) = edges h @ map weighted bce"
proof (induction bce h rule: add_weighted_edges.induct)
  case (1 h)
  then show ?case by simp
next
  case (2 ci cj es rest h)
  let ?h = "add_edge ci cj (Some (real (length es))) h"
  have fresh: "(ci, cj) \<notin> (\<lambda>(a, b, x). (a, b)) ` set (edges h)"
    using 2(3) by auto
  then have e: "edges ?h = edges h @ [(ci, cj, Some (real (length es)))]"
    by (simp add: edges_add_edge set_edge_fresh)
  have "fst ` set rest \<inter> (\<lambda>(a, b, x). (a, b)) ` set (edges ?h) = {}"
    using 2(2,3) by (auto simp: e)
  with 2 have "edges (add_weighted_edges rest ?h) = edges ?h @ map weighted rest"
    by simp
  then show ?case by (simp add: e weighted_def)
qed

lemma edges_build_hypergraph:
  "distinct (map fst bce) \<Longrightarrow> edges (build_hypergraph part bce) = map weighted bce"
  by (simp add: build_hypergraph_def Let_def edges_add_weighted_edges edges_add_nodes_from
        empty_digraph_def)

lemma nodes_build_hypergraph:
  "set (nodes (build_hypergraph part bce)) =
     snd ` set part \<union> (fst ` fst ` set bce) \<union> (snd ` fst ` set bce)"
  by (simp add: build_hypergraph_def Let_def nodes_add_weighted_edges nodes_add_nodes_from
        empty_digraph_def)

lemma distinct_build_hypergraph: "distinct (nodes (build_hypergraph part bce))"
  by (simp add: build_hypergraph_def Let_def distinct_add_weighted_edges distinct_add_nodes_from
        empty_digraph_def)

subsection \<open>dict_update\<close>

lemma dict_update_keys: "fst ` set (dict_update pos new) = fst ` set pos \<union> fst ` set new"
  unfolding dict_update_def
proof (induction new arbitrary: pos)
  case Nil
  then show ?case by simp
next
  case (Cons a new)
  have "fst ` set (AList.update (fst a) (snd a) pos) = insert (fst a) (fst ` set pos)"
    by (simp add: dom_update)
  with Cons[of "AList.update (fst a) (snd a) pos"] show ?case
    by (simp add: case_prod_beta Un_commute insert_commute)
qed

lemma dict_update_distinct: "distinct (map fst pos) \<Longrightarrow> distinct (map fst (dict_update pos new))"
  unfolding dict_update_def
  by (induction new arbitrary: pos) (auto simp: distinct_update)

lemma dict_update_other: "k \<notin> fst ` set new \<Longrightarrow> map_of (dict_update pos new) k = map_of pos k"
  unfolding dict_update_def
  by (induction new arbitrary: pos) (auto simp: update_conv')

lemma dict_update_new:
  "distinct (map fst new) \<Longrightarrow> k \<in> fst ` set new \<Longrightarrow> map_of (dict_update pos new) k = map_of new k"
  unfolding dict_update_def
proof (induction new arbitrary: pos)
  case Nil
  then show ?case by simp
next
  case (Cons a new)
  obtain k' v' where a: "a = (k', v')" by (cases a)
  show ?case
  proof (cases "k = k'")
    case True
    then have "k \<notin> fst ` set new" using Cons.prems(1) a by force
    then have "map_of (dict_update (AList.update k' v' pos) new) k = map_of (AList.update k' v' pos) k"
      by (rule dict_update_other)
    then show ?thesis using True a by (simp add: dict_update_def update_conv')
  next
    case False
    then show ?thesis using Cons a by auto
  qed
qed

section \<open>The crossing-edge loop\<close>

lemma crossing_snoc:
  "crossing part (es @ [(u, v)]) ci cj =
     (if map_of part u = Some ci \<and> map_of part v = Some cj then crossing part es ci cj @ [(u, v)]
      else crossing part es ci cj)"
  by (simp add: crossing_def)

lemma between_loop_inv:
  "distinct (map fst found) \<Longrightarrow> map_of found = crossing_entry part seen
    \<Longrightarrow> between_loop es part found = Inr m
    \<Longrightarrow> distinct (map fst m) \<and> map_of m = crossing_entry part (seen @ es)"
proof (induction es arbitrary: found seen)
  case Nil
  then show ?case by simp
next
  case (Cons e es)
  obtain ni nj where e: "e = (ni, nj)" by (cases e)
  from Cons.prems(3) e obtain ci cj where ci: "map_of part ni = Some ci" and cj: "map_of part nj = Some cj"
    by (auto split: option.splits)
  show ?case
  proof (cases "ci = cj")
    case True
    have "crossing_entry part (seen @ [(ni, nj)]) = crossing_entry part seen"
      using ci cj True by (auto simp: crossing_entry_def crossing_snoc fun_eq_iff)
    with Cons.prems e ci cj True
    have "distinct (map fst m) \<and> map_of m = crossing_entry part ((seen @ [(ni, nj)]) @ es)"
      by (intro Cons.IH[of found]) auto
    then show ?thesis using e by simp
  next
    case False
    define found' where "found' = AList.update (ci, cj)
        (case map_of found (ci, cj) of Some l \<Rightarrow> l @ [(ni, nj)] | None \<Rightarrow> [(ni, nj)]) found"
    have run: "between_loop es part found' = Inr m"
      using Cons.prems(3) e ci cj False by (auto simp: found'_def split: option.splits)
    have d: "distinct (map fst found')"
      using Cons.prems(1) by (simp add: found'_def distinct_update)
    have "map_of found' k = crossing_entry part (seen @ [(ni, nj)]) k" for k
    proof (cases "k = (ci, cj)")
      case True
      then show ?thesis
        using ci cj False Cons.prems(2)
        by (auto simp: found'_def update_conv' crossing_entry_def crossing_snoc split: option.splits if_splits)
    next
      case False
      then show ?thesis
        using ci cj Cons.prems(2)
        by (cases k) (auto simp: found'_def update_conv' crossing_entry_def crossing_snoc)
    qed
    then have "map_of found' = crossing_entry part (seen @ [(ni, nj)])" by (rule ext)
    with d run have "distinct (map fst m) \<and> map_of m = crossing_entry part ((seen @ [(ni, nj)]) @ es)"
      by (intro Cons.IH[of found']) auto
    then show ?thesis using e by simp
  qed
qed

lemma key_lookup: "k \<in> fst ` set xs \<Longrightarrow> \<exists>v. map_of xs k = Some v"
  by (cases "map_of xs k") (simp_all add: map_of_eq_None_iff)

lemma between_loop_total:
  "\<forall>(u, v) \<in> set es. u \<in> fst ` set part \<and> v \<in> fst ` set part
     \<Longrightarrow> \<exists>m. between_loop es part found = Inr m"
proof (induction es arbitrary: found)
  case Nil
  then show ?case by simp
next
  case (Cons e es)
  obtain ni nj where e: "e = (ni, nj)" by (cases e)
  from Cons.prems e have "ni \<in> fst ` set part" "nj \<in> fst ` set part" by auto
  then obtain ci cj where "map_of part ni = Some ci" "map_of part nj = Some cj"
    using key_lookup by metis
  moreover have "\<exists>m. between_loop es part f = Inr m" for f
    using Cons.prems by (intro Cons.IH) auto
  ultimately show ?case using e by (auto split: option.splits)
qed

subsection \<open>assign_anchors\<close>

lemma assign_anchors_total:
  "\<forall>c \<in> snd ` set part. c \<in> fst ` set pc \<Longrightarrow> \<exists>pos. assign_anchors part pc acc = Inr pos"
proof (induction part arbitrary: acc)
  case Nil
  then show ?case by simp
next
  case (Cons e part)
  obtain n c where e: "e = (n, c)" by (cases e)
  with Cons.prems have "c \<in> fst ` set pc" by simp
  then obtain a where "map_of pc c = Some a" using key_lookup by metis
  moreover have "\<exists>pos. assign_anchors part pc acc' = Inr pos" for acc'
    using Cons.prems by (intro Cons.IH) auto
  ultimately show ?case using e by simp
qed

lemma assign_anchors_keys:
  "assign_anchors part pc acc = Inr pos \<Longrightarrow> fst ` set pos = fst ` set acc \<union> fst ` set part"
proof (induction part arbitrary: acc)
  case Nil
  then show ?case by simp
next
  case (Cons e part)
  obtain n c where e: "e = (n, c)" by (cases e)
  from Cons.prems e obtain a where a: "map_of pc c = Some a"
    and run: "assign_anchors part pc (AList.update n a acc) = Inr pos"
    by (auto split: option.splits)
  from Cons.IH[OF run] show ?case using e by (simp add: dom_update insert_commute)
qed

lemma assign_anchors_distinct:
  "assign_anchors part pc acc = Inr pos \<Longrightarrow> distinct (map fst acc) \<Longrightarrow> distinct (map fst pos)"
proof (induction part arbitrary: acc)
  case Nil
  then show ?case by simp
next
  case (Cons e part)
  obtain n c where e: "e = (n, c)" by (cases e)
  from Cons.prems e obtain a where a: "map_of pc c = Some a"
    and run: "assign_anchors part pc (AList.update n a acc) = Inr pos"
    by (auto split: option.splits)
  from Cons.IH[OF run] Cons.prems(2) show ?case by (simp add: distinct_update)
qed

lemma assign_anchors_other:
  "assign_anchors part pc acc = Inr pos \<Longrightarrow> n \<notin> fst ` set part \<Longrightarrow> map_of pos n = map_of acc n"
proof (induction part arbitrary: acc)
  case Nil
  then show ?case by simp
next
  case (Cons e part)
  obtain n' c where e: "e = (n', c)" by (cases e)
  from Cons.prems e obtain a where a: "map_of pc c = Some a"
    and run: "assign_anchors part pc (AList.update n' a acc) = Inr pos"
    by (auto split: option.splits)
  from Cons.prems(2) e have "n \<noteq> n'" "n \<notin> fst ` set part" by auto
  with Cons.IH[OF run] show ?case by (simp add: update_conv')
qed

lemma assign_anchors_lookup:
  "assign_anchors part pc acc = Inr pos \<Longrightarrow> distinct (map fst part) \<Longrightarrow> map_of part n = Some c
     \<Longrightarrow> \<exists>a. map_of pc c = Some a \<and> map_of pos n = Some a"
proof (induction part arbitrary: acc)
  case Nil
  then show ?case by simp
next
  case (Cons e part)
  obtain n' c' where e: "e = (n', c')" by (cases e)
  from Cons.prems e obtain a where a: "map_of pc c' = Some a"
    and run: "assign_anchors part pc (AList.update n' a acc) = Inr pos"
    by (auto split: option.splits)
  show ?case
  proof (cases "n = n'")
    case True
    then have "c = c'" using Cons.prems(3) e by simp
    moreover have "n \<notin> fst ` set part" using Cons.prems(2) e True by auto
    then have "map_of pos n = map_of (AList.update n' a acc) n"
      by (rule assign_anchors_other[OF run])
    ultimately show ?thesis using a True by (simp add: update_conv')
  next
    case False
    then have "map_of part n = Some c" using Cons.prems(3) e by simp
    moreover have "distinct (map fst part)" using Cons.prems(2) by simp
    ultimately show ?thesis using Cons.IH[OF run] by blast
  qed
qed

subsection \<open>group_loop\<close>

lemma members_snoc:
  "members (ps @ [(n, c')]) c = (if c' = c then members ps c @ [n] else members ps c)"
  by (simp add: members_def)

lemma group_loop_inv:
  "distinct (map fst acc) \<Longrightarrow> map_of acc = members_entry seen
     \<Longrightarrow> distinct (map fst (group_loop part acc))
         \<and> map_of (group_loop part acc) = members_entry (seen @ part)"
proof (induction part arbitrary: acc seen)
  case Nil
  then show ?case by simp
next
  case (Cons e part)
  obtain n c where e: "e = (n, c)" by (cases e)
  define acc' where "acc' = AList.update c
      (case map_of acc c of Some l \<Rightarrow> l @ [n] | None \<Rightarrow> [n]) acc"
  have step: "group_loop (e # part) acc = group_loop part acc'"
    using e by (simp add: acc'_def split: option.splits)
  have d: "distinct (map fst acc')"
    using Cons.prems(1) by (simp add: acc'_def distinct_update)
  have "map_of acc' k = members_entry (seen @ [(n, c)]) k" for k
    using Cons.prems(2)
    by (auto simp: acc'_def update_conv' members_entry_def members_snoc split: option.splits if_splits)
  then have "map_of acc' = members_entry (seen @ [(n, c)])" by (rule ext)
  from Cons.IH[OF d this] show ?case using step e by simp
qed

lemma group_loop_spec:
  "distinct (map fst (group_loop part [])) \<and> map_of (group_loop part []) = members_entry part"
  using group_loop_inv[of "[]" "[]" part] by (simp add: members_entry_def members_def fun_eq_iff)

lemma members_iff: "n \<in> set (members part c) \<longleftrightarrow> (n, c) \<in> set part"
  by (auto simp: members_def image_iff)

lemma members_lookup:
  "distinct (map fst part) \<Longrightarrow> n \<in> set (members part c) \<longleftrightarrow> map_of part n = Some c"
  by (simp add: members_iff)

lemma group_loop_entry:
  "(c, ms) \<in> set (group_loop part []) \<Longrightarrow> ms = members part c \<and> ms \<noteq> []"
proof -
  assume "(c, ms) \<in> set (group_loop part [])"
  then have "map_of (group_loop part []) c = Some ms"
    using group_loop_spec[of part] map_of_eq_Some_iff[of "group_loop part []" c ms] by blast
  then show ?thesis using group_loop_spec[of part]
    by (simp add: members_entry_def split: if_splits)
qed

lemma nodes_subgraph: "set (nodes (subgraph g ns)) = set (nodes g) \<inter> set ns"
  by (auto simp: subgraph_def)

lemma solver_keys:
  "solver_contract sl \<Longrightarrow> fst ` set (fst (sl r (subgraph g ns) s)) = set (nodes g) \<inter> set ns"
  by (simp add: solver_contract_def nodes_subgraph)

lemma solver_distinct: "solver_contract sl \<Longrightarrow> distinct (map fst (fst (sl r g s)))"
  by (simp add: solver_contract_def)

lemma layout_loop_keys:
  "solver_contract sl \<Longrightarrow>
     fst ` set (fst (layout_loop sl g s cs pos r)) =
       fst ` set pos \<union> (set (nodes g) \<inter> \<Union> (set ` snd ` set cs))"
proof (induction cs arbitrary: pos r)
  case Nil
  then show ?case by simp
next
  case (Cons e cs)
  obtain ci ns where e: "e = (ci, ns)" by (cases e)
  obtain ps r' where sl: "sl r (subgraph g ns) s = (ps, r')" by (cases "sl r (subgraph g ns) s")
  have ps: "fst ` set ps = set (nodes g) \<inter> set ns"
    using solver_keys[OF Cons.prems, of r g ns s] sl by simp
  have "fst ` set (fst (layout_loop sl g s cs (dict_update pos ps) r')) =
      fst ` set (dict_update pos ps) \<union> (set (nodes g) \<inter> \<Union> (set ` snd ` set cs))"
    by (rule Cons.IH[OF Cons.prems])
  then show ?case using e sl ps by (auto simp: dict_update_keys)
qed

lemma layout_loop_distinct:
  "distinct (map fst pos) \<Longrightarrow> distinct (map fst (fst (layout_loop sl g s cs pos r)))"
proof (induction cs arbitrary: pos r)
  case Nil
  then show ?case by simp
next
  case (Cons e cs)
  obtain ci ns where e: "e = (ci, ns)" by (cases e)
  obtain ps r' where sl: "sl r (subgraph g ns) s = (ps, r')" by (cases "sl r (subgraph g ns) s")
  have "distinct (map fst (dict_update pos ps))"
    using Cons.prems by (rule dict_update_distinct)
  from Cons.IH[OF this] show ?case using e sl by simp
qed

lemma layout_loop_other:
  "solver_contract sl \<Longrightarrow> n \<notin> set (nodes g) \<inter> \<Union> (set ` snd ` set cs)
     \<Longrightarrow> map_of (fst (layout_loop sl g s cs pos r)) n = map_of pos n"
proof (induction cs arbitrary: pos r)
  case Nil
  then show ?case by simp
next
  case (Cons e cs)
  obtain ci ns where e: "e = (ci, ns)" by (cases e)
  obtain ps r' where sl: "sl r (subgraph g ns) s = (ps, r')" by (cases "sl r (subgraph g ns) s")
  have ps: "fst ` set ps = set (nodes g) \<inter> set ns"
    using solver_keys[OF Cons.prems(1), of r g ns s] sl by simp
  have "n \<notin> fst ` set ps" using Cons.prems(2) e ps by auto
  then have "map_of (dict_update pos ps) n = map_of pos n" by (rule dict_update_other)
  moreover have "n \<notin> set (nodes g) \<inter> \<Union> (set ` snd ` set cs)" using Cons.prems(2) by auto
  ultimately show ?case using Cons.IH[OF Cons.prems(1), of "dict_update pos ps" r'] e sl by simp
qed

lemma layout_loop_at:
  "solver_contract sl \<Longrightarrow> (c, ms) \<in> set cs \<Longrightarrow> distinct (map fst cs)
     \<Longrightarrow> n \<in> set ms \<Longrightarrow> n \<in> set (nodes g)
     \<Longrightarrow> \<forall>(c', ms') \<in> set cs. c' \<noteq> c \<longrightarrow> n \<notin> set ms'
     \<Longrightarrow> map_of (fst (layout_loop sl g s cs pos r)) n =
           map_of (fst (sl (rng_at sl g s cs r c) (subgraph g ms) s)) n"
proof (induction cs arbitrary: pos r)
  case Nil
  then show ?case by simp
next
  case (Cons e cs)
  obtain ci ns where e: "e = (ci, ns)" by (cases e)
  obtain ps r' where sl: "sl r (subgraph g ns) s = (ps, r')" by (cases "sl r (subgraph g ns) s")
  have ps: "fst ` set ps = set (nodes g) \<inter> set ns"
    using solver_keys[OF Cons.prems(1), of r g ns s] sl by simp
  have dps: "distinct (map fst ps)"
    using solver_distinct[OF Cons.prems(1), of r "subgraph g ns" s] sl by simp
  show ?case
  proof (cases "ci = c")
    case True
    then have ms: "ns = ms" using Cons.prems(2,3) e by (auto simp: image_iff)
    have "\<forall>(c', ms') \<in> set cs. c' \<noteq> c"
      using Cons.prems(3) e True by (auto simp: image_iff)
    then have "n \<notin> set (nodes g) \<inter> \<Union> (set ` snd ` set cs)"
      using Cons.prems(6) by fastforce
    then have "map_of (fst (layout_loop sl g s cs (dict_update pos ps) r')) n =
        map_of (dict_update pos ps) n"
      by (rule layout_loop_other[OF Cons.prems(1)])
    also have "\<dots> = map_of ps n"
      using dps ps ms Cons.prems(4,5) by (intro dict_update_new) auto
    finally show ?thesis using e sl True ms by simp
  next
    case False
    then have "(c, ms) \<in> set cs" using Cons.prems(2) e by auto
    moreover have "distinct (map fst cs)" using Cons.prems(3) by simp
    moreover have "\<forall>(c', ms') \<in> set cs. c' \<noteq> c \<longrightarrow> n \<notin> set ms'" using Cons.prems(6) by auto
    ultimately have "map_of (fst (layout_loop sl g s cs (dict_update pos ps) r')) n =
        map_of (fst (sl (rng_at sl g s cs r' c) (subgraph g ms) s)) n"
      using Cons.prems(1,4,5) by (intro Cons.IH) auto
    then show ?thesis using e sl False by simp
  qed
qed

subsection \<open>combine_loop\<close>

lemma combine_loop_total:
  "\<forall>n \<in> set ns. n \<in> fst ` set pc \<and> n \<in> fst ` set pn
     \<Longrightarrow> \<exists>pos. combine_loop ns pc pn acc = Inr pos"
proof (induction ns arbitrary: acc)
  case Nil
  then show ?case by simp
next
  case (Cons n ns)
  then have "n \<in> fst ` set pc" "n \<in> fst ` set pn" by auto
  then obtain a b where "map_of pc n = Some a" "map_of pn n = Some b"
    using key_lookup by metis
  moreover have "\<exists>pos. combine_loop ns pc pn acc' = Inr pos" for acc'
    using Cons.prems by (intro Cons.IH) auto
  ultimately show ?case by simp
qed

lemma combine_loop_fails:
  "n \<in> set ns \<Longrightarrow> map_of pc n = None \<or> map_of pn n = None
     \<Longrightarrow> \<exists>k. combine_loop ns pc pn acc = Inl (KeyError k)"
  by (induction ns arbitrary: acc) (auto split: option.splits)

lemma combine_loop_keys:
  "combine_loop ns pc pn acc = Inr pos \<Longrightarrow> fst ` set pos = fst ` set acc \<union> set ns"
proof (induction ns arbitrary: acc)
  case Nil
  then show ?case by simp
next
  case (Cons n ns)
  from Cons.prems obtain a b where
    run: "combine_loop ns pc pn (AList.update n (vadd a b) acc) = Inr pos"
    by (auto split: option.splits)
  from Cons.IH[OF run] show ?case by (simp add: dom_update insert_commute)
qed

lemma combine_loop_distinct:
  "combine_loop ns pc pn acc = Inr pos \<Longrightarrow> distinct (map fst acc) \<Longrightarrow> distinct (map fst pos)"
proof (induction ns arbitrary: acc)
  case Nil
  then show ?case by simp
next
  case (Cons n ns)
  from Cons.prems obtain a b where
    run: "combine_loop ns pc pn (AList.update n (vadd a b) acc) = Inr pos"
    by (auto split: option.splits)
  from Cons.IH[OF run] Cons.prems(2) show ?case by (simp add: distinct_update)
qed

lemma combine_loop_lookup:
  "combine_loop ns pc pn acc = Inr pos \<Longrightarrow>
     (n \<in> set ns \<longrightarrow>
        (\<exists>a b. map_of pc n = Some a \<and> map_of pn n = Some b \<and> map_of pos n = Some (vadd a b)))
     \<and> (n \<notin> set ns \<longrightarrow> map_of pos n = map_of acc n)"
proof (induction ns arbitrary: acc)
  case Nil
  then show ?case by simp
next
  case (Cons m ns)
  from Cons.prems obtain a b where a: "map_of pc m = Some a" and b: "map_of pn m = Some b"
    and run: "combine_loop ns pc pn (AList.update m (vadd a b) acc) = Inr pos"
    by (auto split: option.splits)
  note IH = Cons.IH[OF run]
  show ?case
  proof (cases "n \<in> set ns")
    case True
    with IH show ?thesis by simp
  next
    case False
    with IH have "map_of pos n = map_of (AList.update m (vadd a b) acc) n" by simp
    then show ?thesis using False a b by (auto simp: update_conv')
  qed
qed

lemma find_between_total:
  "wf_graph g \<Longrightarrow> covers part g \<Longrightarrow> \<exists>m. find_between_community_edges g part = Inr m"
  unfolding find_between_community_edges_def
  by (rule between_loop_total) (auto simp: wf_graph_def covers_def)

lemma find_between_spec:
  "find_between_community_edges g part = Inr m
     \<Longrightarrow> distinct (map fst m) \<and> map_of m = crossing_entry part (edge_pairs g)"
  unfolding find_between_community_edges_def
  using between_loop_inv[of "[]" part "[]" "edge_pairs g" m]
  by (simp add: crossing_entry_def crossing_def fun_eq_iff)

lemma crossing_entry_ends:
  "crossing_entry part es (ci, cj) = Some l \<Longrightarrow> ci \<in> snd ` set part \<and> cj \<in> snd ` set part"
proof -
  assume "crossing_entry part es (ci, cj) = Some l"
  then have "crossing part es ci cj \<noteq> []"
    by (simp add: crossing_entry_def split: if_splits)
  then obtain u v where "map_of part u = Some ci" "map_of part v = Some cj"
    by (auto simp: crossing_def filter_empty_conv)
  then have "(u, ci) \<in> set part" "(v, cj) \<in> set part" by (auto dest: map_of_SomeD)
  then show ?thesis by force
qed

lemma hypergraph_nodes:
  assumes "find_between_community_edges g part = Inr m"
  shows "set (nodes (build_hypergraph part m)) = snd ` set part"
proof -
  have m: "map_of m = crossing_entry part (edge_pairs g)" and d: "distinct (map fst m)"
    using find_between_spec[OF assms] by simp_all
  have "ci \<in> snd ` set part \<and> cj \<in> snd ` set part" if "((ci, cj), l) \<in> set m" for ci cj l
  proof -
    from that d have "map_of m (ci, cj) = Some l" by simp
    then show ?thesis using m crossing_entry_ends by metis
  qed
  then have "fst ` fst ` set m \<subseteq> snd ` set part" "snd ` fst ` set m \<subseteq> snd ` set part"
    by fastforce+
  then show ?thesis unfolding nodes_build_hypergraph by blast
qed

lemma position_communities_cases:
  "position_communities sl r g part s = (res, r1) \<Longrightarrow>
     (\<exists>e. find_between_community_edges g part = Inl e \<and> res = Inl e \<and> r1 = r) \<or>
     (\<exists>m. find_between_community_edges g part = Inr m \<and>
          res = assign_anchors part (fst (sl r (build_hypergraph part m) s)) [] \<and>
          r1 = snd (sl r (build_hypergraph part m) s))"
  by (auto simp: position_communities_def split: sum.splits prod.splits)

lemma position_communities_keys:
  "position_communities sl r g part s = (Inr pc, r1) \<Longrightarrow> fst ` set pc = fst ` set part"
  by (drule position_communities_cases) (auto dest!: assign_anchors_keys[OF sym])

lemma position_communities_total:
  assumes "solver_contract sl" "wf_graph g" "covers part g"
  shows "\<exists>pc. position_communities sl r g part s =
            (Inr pc, snd (sl r (build_hypergraph part (projr (find_between_community_edges g part))) s))"
proof -
  obtain m where m: "find_between_community_edges g part = Inr m"
    using find_between_total[OF assms(2,3)] by blast
  let ?H = "build_hypergraph part m"
  have "fst ` set (fst (sl r ?H s)) = snd ` set part"
    using assms(1) hypergraph_nodes[OF m] by (simp add: solver_contract_def)
  then obtain pc where "assign_anchors part (fst (sl r ?H s)) [] = Inr pc"
    using assign_anchors_total[of part "fst (sl r ?H s)" "[]"] by auto
  then show ?thesis using m
    by (auto simp: position_communities_def split: prod.splits)
qed

lemma position_communities_anchor:
  assumes "position_communities sl r g part s = (Inr pc, r1)"
    and "distinct (map fst part)" and "map_of part n = Some c"
  shows "\<exists>m a. find_between_community_edges g part = Inr m \<and>
           map_of (fst (sl r (build_hypergraph part m) s)) c = Some a \<and> map_of pc n = Some a"
proof -
  from position_communities_cases[OF assms(1)] obtain m where
    m: "find_between_community_edges g part = Inr m"
    and pc: "assign_anchors part (fst (sl r (build_hypergraph part m) s)) [] = Inr pc"
    by auto
  from assign_anchors_lookup[OF pc assms(2,3)] m show ?thesis by blast
qed

lemma groups_members: "\<Union> (set ` snd ` set (group_loop part [])) = fst ` set part"
proof (intro set_eqI iffI)
  fix n assume "n \<in> \<Union> (set ` snd ` set (group_loop part []))"
  then obtain c ms where "(c, ms) \<in> set (group_loop part [])" "n \<in> set ms" by force
  then have "n \<in> set (members part c)" using group_loop_entry by blast
  then show "n \<in> fst ` set part" by (force simp: members_iff)
next
  fix n assume "n \<in> fst ` set part"
  then obtain c where nc: "(n, c) \<in> set part" by auto
  then have "n \<in> set (members part c)" by (simp add: members_iff)
  then have "members_entry part c = Some (members part c)"
    by (auto simp: members_entry_def)
  then have "map_of (group_loop part []) c = Some (members part c)"
    using group_loop_spec[of part] by simp
  then have "(c, members part c) \<in> set (group_loop part [])" by (rule map_of_SomeD)
  with \<open>n \<in> set (members part c)\<close> show "n \<in> \<Union> (set ` snd ` set (group_loop part []))"
    by force
qed

lemma position_nodes_keys:
  "solver_contract sl \<Longrightarrow>
     fst ` set (fst (position_nodes sl r g part s)) = set (nodes g) \<inter> fst ` set part"
  unfolding position_nodes_def layout_loop_keys groups_members by simp

lemma position_nodes_distinct: "distinct (map fst (fst (position_nodes sl r g part s)))"
  by (simp add: position_nodes_def layout_loop_distinct)

lemma position_nodes_at:
  assumes "solver_contract sl" "distinct (map fst part)" "map_of part n = Some c"
    "n \<in> set (nodes g)"
  shows "map_of (fst (position_nodes sl r g part s)) n =
     map_of (fst (sl (rng_at sl g s (group_loop part []) r c) (subgraph g (members part c)) s)) n"
proof -
  have n: "n \<in> set (members part c)" using assms(2,3) by (simp add: members_lookup)
  then have "members_entry part c = Some (members part c)" by (auto simp: members_entry_def)
  then have "map_of (group_loop part []) c = Some (members part c)"
    using group_loop_spec[of part] by simp
  then have mem: "(c, members part c) \<in> set (group_loop part [])" by (rule map_of_SomeD)
  have other: "\<forall>(c', ms') \<in> set (group_loop part []). c' \<noteq> c \<longrightarrow> n \<notin> set ms'"
  proof (clarify)
    fix c' ms' assume "(c', ms') \<in> set (group_loop part [])" "c' \<noteq> c" "n \<in> set ms'"
    then have "n \<in> set (members part c')" using group_loop_entry by blast
    then have "map_of part n = Some c'" using assms(2) by (simp add: members_lookup)
    with assms(3) \<open>c' \<noteq> c\<close> show False by simp
  qed
  have d: "distinct (map fst (group_loop part []))" using group_loop_spec[of part] by simp
  show ?thesis unfolding position_nodes_def
    by (rule layout_loop_at[OF assms(1) mem d n assms(4) other])
qed

lemma map_fst_enumerate: "map fst (map (\<lambda>(i, n). (n, f i)) (enumerate k xs)) = xs"
  by (induction xs arbitrary: k) simp_all

lemma line_solver_keys: "map fst (fst (line_solver r g s)) = remdups (nodes g)"
  unfolding line_solver_def Let_def fst_conv by (rule map_fst_enumerate)

lemma line_solver_contract: "solver_contract line_solver"
  unfolding solver_contract_def
proof (intro allI conjI)
  fix r g s
  show "distinct (map fst (fst (line_solver r g s)))" by (simp add: line_solver_keys)
  have "fst ` set (fst (line_solver r g s)) = set (map fst (fst (line_solver r g s)))" by simp
  also have "\<dots> = set (nodes g)" unfolding line_solver_keys by simp
  finally show "fst ` set (fst (line_solver r g s)) = set (nodes g)" .
qed

lemma line_solver_bounded: "solver_bounded line_solver"
  unfolding solver_bounded_def
proof (intro allI impI)
  fix r :: nat and g s n x y
  assume s: "0 \<le> s" and mem: "(n, (x, y)) \<in> set (fst (line_solver r g s))"
  let ?k = "length (remdups (nodes g))"
  from mem obtain i where i: "i < ?k" and x: "x = Finite (s * real i / real (?k + r))" and y: "y = Finite 0"
    by (auto simp: line_solver_def Let_def in_set_enumerate_eq)
  have "real i / real (?k + r) \<le> 1" using i by (simp add: divide_le_eq)
  then have "s * (real i / real (?k + r)) \<le> s * 1" using s by (rule mult_left_mono)
  moreover have "0 \<le> s * real i / real (?k + r)" using s by simp
  ultimately show "bounded_by s x \<and> bounded_by s y" using x y s by simp
qed

lemma fadd_bounded:
  "bounded_by s x \<Longrightarrow> bounded_by t y \<Longrightarrow> s + t < overflow_threshold \<Longrightarrow> is_finite (fadd x y)"
  by (cases x; cases y) auto

lemma scales_below_threshold: "inter_scale + intra_scale < overflow_threshold"
  by (simp add: inter_scale_def intra_scale_def overflow_threshold_def)

lemma community_layout_cases:
  "community_layout sl r g part = (Inr pos, r2) \<Longrightarrow>
     \<exists>pc r1 pn. position_communities sl r g part inter_scale = (Inr pc, r1) \<and>
       position_nodes sl r1 g part intra_scale = (pn, r2) \<and>
       combine_loop (nodes g) pc pn [] = Inr pos"
  by (auto simp: community_layout_def split: prod.splits sum.splits)

lemma community_layout_total:
  assumes "solver_contract sl" "wf_graph g" "covers part g"
  shows "\<exists>pc r1 pn r2 pos. position_communities sl r g part inter_scale = (Inr pc, r1) \<and>
       position_nodes sl r1 g part intra_scale = (pn, r2) \<and>
       combine_loop (nodes g) pc pn [] = Inr pos \<and>
       community_layout sl r g part = (Inr pos, r2)"
proof -
  obtain pc r1 where pc: "position_communities sl r g part inter_scale = (Inr pc, r1)"
    using position_communities_total[OF assms] by blast
  obtain pn r2 where pn: "position_nodes sl r1 g part intra_scale = (pn, r2)"
    by (cases "position_nodes sl r1 g part intra_scale")
  have k1: "fst ` set pc = fst ` set part" using pc by (rule position_communities_keys)
  have k2: "fst ` set pn = set (nodes g) \<inter> fst ` set part"
    using position_nodes_keys[OF assms(1), of r1 g part intra_scale] pn by simp
  have "\<forall>n \<in> set (nodes g). n \<in> fst ` set pc \<and> n \<in> fst ` set pn"
    using k1 k2 assms(3) by (auto simp: covers_def)
  then obtain pos where pos: "combine_loop (nodes g) pc pn [] = Inr pos"
    using combine_loop_total by blast
  then have "community_layout sl r g part = (Inr pos, r2)"
    using pc pn by (simp add: community_layout_def)
  with pc pn pos show ?thesis by blast
qed

section \<open>The model on the example of the specification\<close>

lemma example_between: "find_between_community_edges example_graph example_partition = Inr [((0, 1), [(2, 3)])]"
  by (simp add: find_between_community_edges_def example_graph_def example_partition_def edge_pairs_def)

lemma example_hypergraph: "build_hypergraph example_partition [((0, 1), [(2, 3)])] =
   \<lparr>directed = True, nodes = [0, 1], edges = [(0, 1, Some 1)]\<rparr>"
  by (simp add: build_hypergraph_def example_partition_def add_nodes_from_def add_node_def
      add_edge_def empty_digraph_def Let_def)

lemma example_anchors: "position_communities line_solver 0 example_graph example_partition 3 = 
  (Inr [(1, Finite 0, Finite 0), (2, Finite 0, Finite 0),
       (3, Finite (3 / 2), Finite 0), (4, Finite (3 / 2), Finite 0)], 1)"
  unfolding position_communities_def example_between example_hypergraph sum.case
  by (simp add: line_solver_def Let_def example_partition_def)

lemma example_groups: "group_loop example_partition [] = [(0, [1, 2]), (1, [3, 4])]"
  by (simp add: example_partition_def)

lemma example_subgraph_a: "subgraph example_graph [1, 2] = \<lparr>directed = False, nodes = [1, 2], edges = [(1, 2, None)]\<rparr>"
  by (simp add: subgraph_def example_graph_def)

lemma example_subgraph_b: "subgraph example_graph [3, 4] = \<lparr>directed = False, nodes = [3, 4], edges = [(3, 4, None)]\<rparr>"
  by (simp add: subgraph_def example_graph_def)

lemma example_offsets: "position_nodes line_solver 1 example_graph example_partition 1 =
   ([(1, Finite 0, Finite 0), (2, Finite (1 / 3), Finite 0),
     (3, Finite 0, Finite 0), (4, Finite (1 / 4), Finite 0)], 3)"
  unfolding position_nodes_def example_groups
  by (simp add: example_subgraph_a example_subgraph_b line_solver_def Let_def dict_update_def)

lemma example_layout: "community_layout line_solver 0 example_graph example_partition =
   (Inr [(1, Finite 0, Finite 0), (2, Finite (1 / 3), Finite 0),
       (3, Finite (3 / 2), Finite 0), (4, Finite (7 / 4), Finite 0)], 3)"
  unfolding community_layout_def inter_scale_def intra_scale_def example_anchors prod.case sum.case example_offsets
  by (simp add: example_graph_def overflow_threshold_def)

section \<open>Bounds on anchors and offsets\<close>

lemma bounded_by_finite: "bounded_by s x \<Longrightarrow> is_finite x"
  by (cases x) simp_all

lemma solver_boundedD:
  "solver_bounded sl \<Longrightarrow> 0 \<le> s \<Longrightarrow> map_of (fst (sl r g s)) n = Some (x, y)
     \<Longrightarrow> bounded_by s x \<and> bounded_by s y"
  unfolding solver_bounded_def by (blast dest: map_of_SomeD)

lemma anchor_bounded:
  assumes "solver_bounded sl" "position_communities sl r g part s = (Inr pc, r1)"
    "distinct (map fst part)" "0 \<le> s" "map_of pc n = Some (x, y)"
  shows "bounded_by s x \<and> bounded_by s y"
proof -
  have "n \<in> fst ` set part"
    using position_communities_keys[OF assms(2)] lookup_key[OF assms(5)] by simp
  then obtain c where c: "map_of part n = Some c" using key_lookup by metis
  from position_communities_anchor[OF assms(2,3) c] assms(5) obtain m where
    "map_of (fst (sl r (build_hypergraph part m) s)) c = Some (x, y)" by auto
  then show ?thesis by (rule solver_boundedD[OF assms(1,4)])
qed

lemma offset_bounded:
  assumes "solver_contract sl" "solver_bounded sl" "distinct (map fst part)" "0 \<le> s"
    "map_of (fst (position_nodes sl r g part s)) n = Some (x, y)"
  shows "bounded_by s x \<and> bounded_by s y"
proof -
  have "n \<in> set (nodes g) \<inter> fst ` set part"
    using position_nodes_keys[OF assms(1), of r g part s] lookup_key[OF assms(5)] by simp
  then obtain c where n: "n \<in> set (nodes g)" and c: "map_of part n = Some c"
    using key_lookup by (metis IntE)
  from position_nodes_at[OF assms(1,3) c n, of r s] assms(5)
  have "map_of (fst (sl (rng_at sl g s (group_loop part []) r c)
          (subgraph g (members part c)) s)) n = Some (x, y)" by simp
  then show ?thesis by (rule solver_boundedD[OF assms(2,4)])
qed

lemma vadd_finite:
  assumes "bounded_by s (fst a) \<and> bounded_by s (snd a)" "bounded_by t (fst b) \<and> bounded_by t (snd b)"
    "s + t < overflow_threshold"
  shows "finite_point (vadd a b)"
  using assms by (cases a; cases b) (auto intro: fadd_bounded)

section \<open>The composed layout on a covered graph\<close>

lemma community_layout_covered:
  assumes "solver_contract sl" "wf_graph g" "covers part g"
  obtains pc r1 pn r2 pos where
    "position_communities sl r g part inter_scale = (Inr pc, r1)"
    "position_nodes sl r1 g part intra_scale = (pn, r2)"
    "community_layout sl r g part = (Inr pos, r2)"
    "distinct (map fst pos)" "fst ` set pos = set (nodes g)"
    "\<forall>n \<in> set (nodes g). \<exists>a b. map_of pc n = Some a \<and> map_of pn n = Some b \<and>
            map_of pos n = Some (vadd a b)"
proof -
  from community_layout_total[OF assms, of r] obtain pc r1 pn r2 pos where
    pc: "position_communities sl r g part inter_scale = (Inr pc, r1)" and
    pn: "position_nodes sl r1 g part intra_scale = (pn, r2)" and
    cl: "combine_loop (nodes g) pc pn [] = Inr pos" and
    res: "community_layout sl r g part = (Inr pos, r2)" by blast
  have d: "distinct (map fst pos)" using combine_loop_distinct[OF cl] by simp
  have k: "fst ` set pos = set (nodes g)" using combine_loop_keys[OF cl] by simp
  have v: "\<forall>n \<in> set (nodes g). \<exists>a b. map_of pc n = Some a \<and> map_of pn n = Some b \<and>
            map_of pos n = Some (vadd a b)"
    using combine_loop_lookup[OF cl] by blast
  from pc pn res d k v show ?thesis by (rule that)
qed

section \<open>A partition with a single community\<close>




section \<open>Finite entries\<close>

lemma community_layout_finite:
  assumes "solver_contract sl" "solver_bounded sl" "wf_graph g" "covers part g"
  obtains pc r1 pn r2 pos where
    "position_communities sl r g part inter_scale = (Inr pc, r1)"
    "position_nodes sl r1 g part intra_scale = (pn, r2)"
    "community_layout sl r g part = (Inr pos, r2)"
    "distinct (map fst pos)" "fst ` set pos = set (nodes g)"
    "\<forall>(n, p) \<in> set pos. finite_point p"
    "\<forall>n \<in> fst ` set part. \<exists>a. map_of pc n = Some a \<and> finite_point a"
    "\<forall>n \<in> set (nodes g). \<exists>b. map_of pn n = Some b \<and> finite_point b"
proof -
  obtain pc r1 pn r2 pos where
    pc: "position_communities sl r g part inter_scale = (Inr pc, r1)" and
    pn: "position_nodes sl r1 g part intra_scale = (pn, r2)" and
    res: "community_layout sl r g part = (Inr pos, r2)" and
    d: "distinct (map fst pos)" and k: "fst ` set pos = set (nodes g)" and
    v: "\<forall>n \<in> set (nodes g). \<exists>a b. map_of pc n = Some a \<and> map_of pn n = Some b \<and>
            map_of pos n = Some (vadd a b)"
    by (rule community_layout_covered[OF assms(1,3,4), of r])
  have dp: "distinct (map fst part)" using assms(4) by (simp add: covers_def)
  have pn': "pn = fst (position_nodes sl r1 g part intra_scale)" using pn by simp
  have ba: "bounded_by inter_scale (fst a) \<and> bounded_by inter_scale (snd a)"
    if "map_of pc n = Some a" for n a
    using anchor_bounded[OF assms(2) pc dp, of n "fst a" "snd a"] that
    by (simp add: inter_scale_def)
  have bb: "bounded_by intra_scale (fst b) \<and> bounded_by intra_scale (snd b)"
    if "map_of pn n = Some b" for n b
    using offset_bounded[OF assms(1,2) dp, of intra_scale r1 g n "fst b" "snd b"] that pn'
    by (simp add: intra_scale_def)
  have fin: "\<forall>(n, p) \<in> set pos. finite_point p"
  proof (clarify)
    fix n x y assume mem: "(n, (x, y)) \<in> set pos"
    with k have n: "n \<in> set (nodes g)" by force
    from mem d have "map_of pos n = Some (x, y)" by simp
    with v n obtain a b where a: "map_of pc n = Some a" and b: "map_of pn n = Some b"
      and p: "(x, y) = vadd a b" by force
    show "finite_point (x, y)"
      unfolding p using ba[OF a] bb[OF b] scales_below_threshold by (rule vadd_finite)
  qed
  have fa: "\<forall>n \<in> fst ` set part. \<exists>a. map_of pc n = Some a \<and> finite_point a"
  proof
    fix n assume "n \<in> fst ` set part"
    then have "n \<in> fst ` set pc" using position_communities_keys[OF pc] by simp
    then obtain a where a: "map_of pc n = Some a" using key_lookup by metis
    from ba[OF a] have "finite_point a" by (cases a) (auto intro: bounded_by_finite)
    with a show "\<exists>a. map_of pc n = Some a \<and> finite_point a" by blast
  qed
  have fb: "\<forall>n \<in> set (nodes g). \<exists>b. map_of pn n = Some b \<and> finite_point b"
  proof
    fix n assume "n \<in> set (nodes g)"
    with v obtain b where b: "map_of pn n = Some b" by blast
    from bb[OF b] have "finite_point b" by (cases b) (auto intro: bounded_by_finite)
    with b show "\<exists>b. map_of pn n = Some b \<and> finite_point b" by blast
  qed
  from pc pn res d k fin fa fb show ?thesis by (rule that)
qed

lemma community_layout_empty:
  "fst (community_layout sl r \<lparr>directed = d, nodes = [], edges = []\<rparr> []) = Inr []"
  by (simp add: community_layout_def position_communities_def find_between_community_edges_def
      edge_pairs_def position_nodes_def split: prod.splits)

section \<open>Sums of finite coordinates\<close>

lemma fadd_finite_sum:
  "\<bar>x + y\<bar> < overflow_threshold \<Longrightarrow> fadd (Finite x) (Finite y) = Finite (x + y)"
  by auto

lemma vadd_finite_sum:
  "\<bar>x1 + x2\<bar> < overflow_threshold \<Longrightarrow> \<bar>y1 + y2\<bar> < overflow_threshold
     \<Longrightarrow> vadd (Finite x1, Finite y1) (Finite x2, Finite y2) = (Finite (x1 + x2), Finite (y1 + y2))"
  by (simp only: vadd.simps fadd_finite_sum)

lemma bounded_by_cases: "bounded_by s v \<Longrightarrow> \<exists>x. v = Finite x \<and> \<bar>x\<bar> \<le> s"
  by (cases v) simp_all

lemma vadd_bounded_sum:
  assumes "bounded_by s (fst a) \<and> bounded_by s (snd a)" "bounded_by t (fst b) \<and> bounded_by t (snd b)"
    "s + t < overflow_threshold"
  shows "\<exists>x1 y1 x2 y2. a = (Finite x1, Finite y1) \<and> b = (Finite x2, Finite y2) \<and>
           vadd a b = (Finite (x1 + x2), Finite (y1 + y2))"
proof -
  from assms(1) obtain x1 y1 where a: "a = (Finite x1, Finite y1)" and
    a1: "\<bar>x1\<bar> \<le> s" "\<bar>y1\<bar> \<le> s"
    by (cases a) (auto dest!: bounded_by_cases)
  from assms(2) obtain x2 y2 where b: "b = (Finite x2, Finite y2)" and
    b1: "\<bar>x2\<bar> \<le> t" "\<bar>y2\<bar> \<le> t"
    by (cases b) (auto dest!: bounded_by_cases)
  have "\<bar>x1 + x2\<bar> < overflow_threshold" "\<bar>y1 + y2\<bar> < overflow_threshold"
    using a1 b1 assms(3) by linarith+
  then have "vadd a b = (Finite (x1 + x2), Finite (y1 + y2))"
    unfolding a b by (rule vadd_finite_sum)
  with a b show ?thesis by blast
qed

section \<open>The second stand-in solver\<close>

lemma slant_solver_keys: "map fst (fst (slant_solver r g s)) = remdups (nodes g)"
  unfolding slant_solver_def Let_def fst_conv by (rule map_fst_enumerate)

lemma slant_solver_contract: "solver_contract slant_solver"
  unfolding solver_contract_def
proof (intro allI conjI)
  fix r g s
  show "distinct (map fst (fst (slant_solver r g s)))" by (simp add: slant_solver_keys)
  have "fst ` set (fst (slant_solver r g s)) = set (map fst (fst (slant_solver r g s)))" by simp
  also have "\<dots> = set (nodes g)" unfolding slant_solver_keys by simp
  finally show "fst ` set (fst (slant_solver r g s)) = set (nodes g)" .
qed

lemma slant_solver_bounded: "solver_bounded slant_solver"
  unfolding solver_bounded_def
proof (intro allI impI)
  fix r :: nat and g s n x y
  assume s: "0 \<le> s" and mem: "(n, (x, y)) \<in> set (fst (slant_solver r g s))"
  let ?k = "length (remdups (nodes g))"
  from mem obtain i where i: "i < ?k" and x: "x = Finite (s * real i / real (?k + r))"
    and y: "y = Finite (- (s * real (Suc i) / real (Suc ?k + r)))"
    by (auto simp: slant_solver_def Let_def in_set_enumerate_eq)
  have "real i / real (?k + r) \<le> 1" using i by (simp add: divide_le_eq)
  then have "s * (real i / real (?k + r)) \<le> s * 1" using s by (rule mult_left_mono)
  moreover have "0 \<le> s * real i / real (?k + r)" using s by simp
  ultimately have bx: "bounded_by s x" using x by simp
  have "real (Suc i) / real (Suc ?k + r) \<le> 1" using i by (simp add: divide_le_eq)
  then have "s * (real (Suc i) / real (Suc ?k + r)) \<le> s * 1" using s by (rule mult_left_mono)
  moreover have "0 \<le> s * real (Suc i) / real (Suc ?k + r)" using s by simp
  ultimately have "bounded_by s y" unfolding y by simp
  with bx show "bounded_by s x \<and> bounded_by s y" by simp
qed

lemma slant_anchors:
  "position_communities slant_solver 0 example_graph example_partition 3 =
     (Inr [(1, Finite 0, Finite (- 1)), (2, Finite 0, Finite (- 1)),
           (3, Finite (3 / 2), Finite (- 2)), (4, Finite (3 / 2), Finite (- 2))], 1)"
  unfolding position_communities_def example_between example_hypergraph sum.case
  by (simp add: slant_solver_def Let_def example_partition_def)

lemma slant_offsets:
  "position_nodes slant_solver 1 example_graph example_partition 1 =
     ([(1, Finite 0, Finite (- (1 / 4))), (2, Finite (1 / 3), Finite (- (1 / 2))),
       (3, Finite 0, Finite (- (1 / 5))), (4, Finite (1 / 4), Finite (- (2 / 5)))], 3)"
  unfolding position_nodes_def example_groups
  by (simp add: example_subgraph_a example_subgraph_b slant_solver_def Let_def dict_update_def)

lemma slant_layout:
  "community_layout slant_solver 0 example_graph example_partition =
     (Inr [(1, Finite 0, Finite (- (5 / 4))), (2, Finite (1 / 3), Finite (- (3 / 2))),
           (3, Finite (3 / 2), Finite (- (11 / 5))), (4, Finite (7 / 4), Finite (- (12 / 5)))], 3)"
  unfolding community_layout_def inter_scale_def intra_scale_def slant_anchors prod.case sum.case
    slant_offsets
  by (simp add: example_graph_def overflow_threshold_def)

section \<open>The random state couples the communities\<close>








section \<open>Runs with a solver that may be nondeterministic\<close>







subsection \<open>The functions are the runs of a functional solver\<close>






section \<open>The claims\<close>

text \<open>
  C3.  When every end of every edge has a community, the crossing-edge dict is returned; its
  keys are exactly the ordered pairs of different communities joined by some edge, each key
  holds exactly the edges that cross in that direction, and the meta-graph has one edge per
  key, weighted by the length of the key's list.  On the example of the specification the
  dict has the single entry (A, B) with the one edge (2, 3), so its weight is 1; with the
  three edges reported in the other direction, the single entry is (B, A).
\<close>

theorem find_between_community_edges_crossing:
  assumes "\<forall>(u, v) \<in> set (edge_pairs g). u \<in> fst ` set part \<and> v \<in> fst ` set part"
  shows "\<exists>m. find_between_community_edges g part = Inr m \<and> distinct (map fst m) \<and>
     (\<forall>ci cj. (ci, cj) \<in> fst ` set m \<longleftrightarrow>
        ci \<noteq> cj \<and> (\<exists>(u, v) \<in> set (edge_pairs g).
                    map_of part u = Some ci \<and> map_of part v = Some cj)) \<and>
     (\<forall>ci cj es. ((ci, cj), es) \<in> set m \<longrightarrow> es = crossing part (edge_pairs g) ci cj) \<and>
     edges (build_hypergraph part m) = map weighted m \<and>
     find_between_community_edges example_graph example_partition = Inr [((0, 1), [(2, 3)])] \<and>
     map weighted [((0, 1), [(2, 3)])] = [(0, 1, Some 1)] \<and>
     find_between_community_edges
       (example_graph\<lparr>edges := [(2, 1, None), (3, 2, None), (4, 3, None)]\<rparr>) example_partition
       = Inr [((1, 0), [(3, 2)])]"
proof -
  obtain m where m: "find_between_community_edges g part = Inr m"
    using between_loop_total[OF assms] unfolding find_between_community_edges_def by blast
  have d: "distinct (map fst m)" and e: "map_of m = crossing_entry part (edge_pairs g)"
    using find_between_spec[OF m] by simp_all
  have keys: "(ci, cj) \<in> fst ` set m \<longleftrightarrow>
        ci \<noteq> cj \<and> (\<exists>(u, v) \<in> set (edge_pairs g).
                    map_of part u = Some ci \<and> map_of part v = Some cj)" for ci cj
  proof -
    have "(ci, cj) \<in> fst ` set m \<longleftrightarrow> map_of m (ci, cj) \<noteq> None"
      by (simp add: map_of_eq_None_iff)
    also have "\<dots> \<longleftrightarrow> ci \<noteq> cj \<and> crossing part (edge_pairs g) ci cj \<noteq> []"
      by (simp add: e crossing_entry_def)
    also have "\<dots> \<longleftrightarrow> ci \<noteq> cj \<and> (\<exists>(u, v) \<in> set (edge_pairs g).
                    map_of part u = Some ci \<and> map_of part v = Some cj)"
      by (auto simp: crossing_def filter_empty_conv)
    finally show ?thesis .
  qed
  have vals: "es = crossing part (edge_pairs g) ci cj" if "((ci, cj), es) \<in> set m" for ci cj es
  proof -
    from that d have "map_of m (ci, cj) = Some es" by simp
    then show ?thesis by (simp add: e crossing_entry_def split: if_splits)
  qed
  have w: "map weighted [((0, 1), [(2, 3)])] = [(0, 1, Some 1)]"
    by (simp add: weighted_def)
  have r: "find_between_community_edges
       (example_graph\<lparr>edges := [(2, 1, None), (3, 2, None), (4, 3, None)]\<rparr>) example_partition
       = Inr [((1, 0), [(3, 2)])]"
    by (simp add: find_between_community_edges_def example_graph_def example_partition_def
        edge_pairs_def)
  have "find_between_community_edges g part = Inr m \<and> distinct (map fst m) \<and>
     (\<forall>ci cj. (ci, cj) \<in> fst ` set m \<longleftrightarrow>
        ci \<noteq> cj \<and> (\<exists>(u, v) \<in> set (edge_pairs g).
                    map_of part u = Some ci \<and> map_of part v = Some cj)) \<and>
     (\<forall>ci cj es. ((ci, cj), es) \<in> set m \<longrightarrow> es = crossing part (edge_pairs g) ci cj) \<and>
     edges (build_hypergraph part m) = map weighted m \<and>
     find_between_community_edges example_graph example_partition = Inr [((0, 1), [(2, 3)])] \<and>
     map weighted [((0, 1), [(2, 3)])] = [(0, 1, Some 1)] \<and>
     find_between_community_edges
       (example_graph\<lparr>edges := [(2, 1, None), (3, 2, None), (4, 3, None)]\<rparr>) example_partition
       = Inr [((1, 0), [(3, 2)])]"
  proof (intro conjI allI impI)
    show "find_between_community_edges g part = Inr m" by (rule m)
    show "distinct (map fst m)" by (rule d)
    show "edges (build_hypergraph part m) = map weighted m"
      by (rule edges_build_hypergraph[OF d])
    show "find_between_community_edges example_graph example_partition = Inr [((0, 1), [(2, 3)])]"
      by (rule example_between)
    show "map weighted [((0, 1), [(2, 3)])] = [(0, 1, Some 1)]" by (rule w)
  qed (rule keys, erule vals, rule r)
  then show ?thesis by (rule exI)
qed

theorem find_between_community_edges_crossing_witness:
  "list_all (\<lambda>(u, v). u \<in> fst ` set example_partition \<and> v \<in> fst ` set example_partition)
      (edge_pairs example_graph) \<and>
   (\<exists>m. find_between_community_edges example_graph example_partition = Inr m \<and>
      ((0, 1), [(2, 3)]) \<in> set m \<and>
      [(2, 3)] = crossing example_partition (edge_pairs example_graph) 0 1 \<and>
      (0, 1) \<in> fst ` set m \<and> (1, 0) \<notin> fst ` set m \<and>
      edges (build_hypergraph example_partition m) = map weighted m)"
proof -
  have h: "\<forall>(u, v) \<in> set (edge_pairs example_graph).
      u \<in> fst ` set example_partition \<and> v \<in> fst ` set example_partition"
    by (simp add: example_graph_def example_partition_def edge_pairs_def)
  from find_between_community_edges_crossing[OF h] obtain m where
    m: "find_between_community_edges example_graph example_partition = Inr m"
    and w: "edges (build_hypergraph example_partition m) = map weighted m"
    by blast
  from m have m': "m = [((0, 1), [(2, 3)])]" by (simp add: example_between)
  have c: "[(2, 3)] = crossing example_partition (edge_pairs example_graph) 0 1"
    by (simp add: crossing_def example_graph_def example_partition_def edge_pairs_def)
  have k: "((0, 1), [(2, 3)]) \<in> set m" "(0, 1) \<in> fst ` set m" "(1, 0) \<notin> fst ` set m"
    by (simp_all add: m')
  from h have "list_all (\<lambda>(u, v). u \<in> fst ` set example_partition \<and> v \<in> fst ` set example_partition)
      (edge_pairs example_graph)"
    by (simp add: list_all_iff)
  moreover from m w c k have "\<exists>m. find_between_community_edges example_graph example_partition = Inr m \<and>
      ((0, 1), [(2, 3)]) \<in> set m \<and>
      [(2, 3)] = crossing example_partition (edge_pairs example_graph) 0 1 \<and>
      (0, 1) \<in> fst ` set m \<and> (1, 0) \<notin> fst ` set m \<and>
      edges (build_hypergraph example_partition m) = map weighted m"
    by blast
  ultimately show ?thesis by (rule conjI)
qed

text \<open>
  C1.  For a graph and a partition that gives every node of the graph a community, and a
  solver that returns one position per node of the graph it is given, every coordinate
  finite and within the scale, \<^verbatim>\<open>community_layout\<close> returns a dict with exactly one entry
  for every node of the graph and no other key, and every entry is a pair of finite numbers:
  no NaN and no infinity.
\<close>

theorem community_layout_one_finite_entry_per_node:
  assumes "solver_contract sl" "solver_bounded sl" "wf_graph g" "covers part g"
  shows "\<exists>pos r'. community_layout sl r g part = (Inr pos, r') \<and>
           distinct (map fst pos) \<and> fst ` set pos = set (nodes g) \<and>
           (\<forall>(n, p) \<in> set pos. finite_point p)"
proof -
  obtain pc r1 pn r2 pos where
    pc: "position_communities sl r g part inter_scale = (Inr pc, r1)" and
    pn: "position_nodes sl r1 g part intra_scale = (pn, r2)" and
    res: "community_layout sl r g part = (Inr pos, r2)" and
    d: "distinct (map fst pos)" and k: "fst ` set pos = set (nodes g)" and
    v: "\<forall>n \<in> set (nodes g). \<exists>a b. map_of pc n = Some a \<and> map_of pn n = Some b \<and>
            map_of pos n = Some (vadd a b)"
    by (rule community_layout_covered[OF assms(1,3,4), of r])
  have dp: "distinct (map fst part)" using assms(4) by (simp add: covers_def)
  have fin: "finite_point p" if "(n, p) \<in> set pos" for n p
  proof -
    from that k have n: "n \<in> set (nodes g)" by force
    from that d have "map_of pos n = Some p" by simp
    with v n obtain a b where a: "map_of pc n = Some a" and b: "map_of pn n = Some b"
      and p: "p = vadd a b" by force
    have "bounded_by inter_scale (fst a) \<and> bounded_by inter_scale (snd a)"
      using anchor_bounded[OF assms(2) pc dp, of n "fst a" "snd a"] a
      by (simp add: inter_scale_def)
    moreover have "bounded_by intra_scale (fst b) \<and> bounded_by intra_scale (snd b)"
      using offset_bounded[OF assms(1,2) dp, of intra_scale r1 g n "fst b" "snd b"] b pn
      by (simp add: intra_scale_def)
    ultimately show ?thesis unfolding p using scales_below_threshold by (rule vadd_finite)
  qed
  then have "\<forall>(n, p) \<in> set pos. finite_point p" by blast
  with res d k have "community_layout sl r g part = (Inr pos, r2) \<and>
           distinct (map fst pos) \<and> fst ` set pos = set (nodes g) \<and>
           (\<forall>(n, p) \<in> set pos. finite_point p)" by simp
  then show ?thesis by (intro exI)
qed

theorem community_layout_one_finite_entry_per_node_witness:
  "solver_contract line_solver \<and> solver_bounded line_solver \<and> wf_graph example_graph \<and>
   covers example_partition example_graph \<and>
   (\<exists>pos r'. community_layout line_solver 0 example_graph example_partition = (Inr pos, r') \<and>
      pos = [(1, Finite 0, Finite 0), (2, Finite (1 / 3), Finite 0),
             (3, Finite (3 / 2), Finite 0), (4, Finite (7 / 4), Finite 0)] \<and>
      distinct (map fst pos) \<and> fst ` set pos = set (nodes example_graph) \<and>
      (\<forall>(n, p) \<in> set pos. finite_point p))"
proof -
  have w: "wf_graph example_graph"
    by (simp add: wf_graph_def example_graph_def edge_pairs_def)
  have c: "covers example_partition example_graph"
    by (simp add: covers_def example_graph_def example_partition_def)
  from community_layout_one_finite_entry_per_node[OF line_solver_contract line_solver_bounded w c, of 0]
  have "\<exists>pos r'. community_layout line_solver 0 example_graph example_partition = (Inr pos, r') \<and>
      pos = [(1, Finite 0, Finite 0), (2, Finite (1 / 3), Finite 0),
             (3, Finite (3 / 2), Finite 0), (4, Finite (7 / 4), Finite 0)] \<and>
      distinct (map fst pos) \<and> fst ` set pos = set (nodes example_graph) \<and>
      (\<forall>(n, p) \<in> set pos. finite_point p)"
    unfolding example_layout by simp
  with line_solver_contract line_solver_bounded w c show ?thesis by (intro conjI)
qed

text \<open>
  C2.  Whenever \<^verbatim>\<open>community_layout\<close> returns, the position of every node of the graph is
  the component-wise sum of the node's anchor, taken from \<^verbatim>\<open>_position_communities\<close> run
  with scale 3, and the node's offset, taken from \<^verbatim>\<open>_position_nodes\<close> run with scale 1 on
  the random state the first call left; the scale between communities is the larger one.
  For finite coordinates the sum is the sum of the real numbers, in x and in y: an anchor
  \<open>(x1, y1)\<close> and an offset \<open>(x2, y2)\<close> give the position \<open>(x1 + x2, y1 + y2)\<close>, as long as
  the sums stay below the overflow threshold of a double; with a solver that keeps its
  contract the coordinates are finite and within the scales, so this is always the case.
\<close>

theorem community_layout_adds_anchor_and_offset:
  assumes "community_layout sl r g part = (Inr pos, r2)" "n \<in> set (nodes g)"
  shows "\<exists>pc r1 pn a b.
           position_communities sl r g part 3 = (Inr pc, r1) \<and>
           position_nodes sl r1 g part 1 = (pn, r2) \<and>
           map_of pc n = Some a \<and> map_of pn n = Some b \<and>
           map_of pos n = Some (vadd a b) \<and>
           (\<forall>x1 y1 x2 y2.
              a = (Finite x1, Finite y1) \<and> b = (Finite x2, Finite y2) \<and>
              \<bar>x1 + x2\<bar> < overflow_threshold \<and> \<bar>y1 + y2\<bar> < overflow_threshold \<longrightarrow>
              map_of pos n = Some (Finite (x1 + x2), Finite (y1 + y2))) \<and>
           (solver_contract sl \<and> solver_bounded sl \<and> distinct (map fst part) \<longrightarrow>
              (\<exists>x1 y1 x2 y2.
                 a = (Finite x1, Finite y1) \<and> b = (Finite x2, Finite y2) \<and>
                 map_of pos n = Some (Finite (x1 + x2), Finite (y1 + y2)))) \<and>
           intra_scale < inter_scale"
proof -
  from community_layout_cases[OF assms(1)] obtain pc r1 pn where
    pc: "position_communities sl r g part 3 = (Inr pc, r1)" and
    pn: "position_nodes sl r1 g part 1 = (pn, r2)" and
    cl: "combine_loop (nodes g) pc pn [] = Inr pos"
    unfolding inter_scale_def intra_scale_def by blast
  from combine_loop_lookup[OF cl, of n] assms(2) obtain a b where
    a: "map_of pc n = Some a" and b: "map_of pn n = Some b" and
    p: "map_of pos n = Some (vadd a b)" by blast
  have sums: "\<forall>x1 y1 x2 y2.
              a = (Finite x1, Finite y1) \<and> b = (Finite x2, Finite y2) \<and>
              \<bar>x1 + x2\<bar> < overflow_threshold \<and> \<bar>y1 + y2\<bar> < overflow_threshold \<longrightarrow>
              map_of pos n = Some (Finite (x1 + x2), Finite (y1 + y2))"
  proof (intro allI impI)
    fix x1 y1 x2 y2
    assume h: "a = (Finite x1, Finite y1) \<and> b = (Finite x2, Finite y2) \<and>
              \<bar>x1 + x2\<bar> < overflow_threshold \<and> \<bar>y1 + y2\<bar> < overflow_threshold"
    then have "vadd a b = (Finite (x1 + x2), Finite (y1 + y2))"
      by (simp only: vadd_finite_sum)
    with p show "map_of pos n = Some (Finite (x1 + x2), Finite (y1 + y2))" by simp
  qed
  have contract: "solver_contract sl \<and> solver_bounded sl \<and> distinct (map fst part) \<longrightarrow>
              (\<exists>x1 y1 x2 y2.
                 a = (Finite x1, Finite y1) \<and> b = (Finite x2, Finite y2) \<and>
                 map_of pos n = Some (Finite (x1 + x2), Finite (y1 + y2)))"
  proof
    assume h: "solver_contract sl \<and> solver_bounded sl \<and> distinct (map fst part)"
    then have sc: "solver_contract sl" and sb: "solver_bounded sl"
      and dp: "distinct (map fst part)" by simp_all
    have pc': "position_communities sl r g part inter_scale = (Inr pc, r1)"
      using pc by (simp add: inter_scale_def)
    have ba: "bounded_by inter_scale (fst a) \<and> bounded_by inter_scale (snd a)"
      using anchor_bounded[OF sb pc' dp, of n "fst a" "snd a"] a
      by (simp add: inter_scale_def)
    have "map_of (fst (position_nodes sl r1 g part intra_scale)) n = Some b"
      using pn b by (simp add: intra_scale_def)
    then have bb: "bounded_by intra_scale (fst b) \<and> bounded_by intra_scale (snd b)"
      using offset_bounded[OF sc sb dp, of intra_scale r1 g n "fst b" "snd b"]
      by (simp add: intra_scale_def)
    from vadd_bounded_sum[OF ba bb scales_below_threshold] obtain x1 y1 x2 y2 where
      "a = (Finite x1, Finite y1)" "b = (Finite x2, Finite y2)"
      "vadd a b = (Finite (x1 + x2), Finite (y1 + y2))" by blast
    with p show "\<exists>x1 y1 x2 y2.
                 a = (Finite x1, Finite y1) \<and> b = (Finite x2, Finite y2) \<and>
                 map_of pos n = Some (Finite (x1 + x2), Finite (y1 + y2))"
      by simp
  qed
  have "intra_scale < inter_scale" by (simp add: inter_scale_def intra_scale_def)
  with pc pn a b p sums contract
  have "position_communities sl r g part 3 = (Inr pc, r1) \<and>
           position_nodes sl r1 g part 1 = (pn, r2) \<and>
           map_of pc n = Some a \<and> map_of pn n = Some b \<and>
           map_of pos n = Some (vadd a b) \<and>
           (\<forall>x1 y1 x2 y2.
              a = (Finite x1, Finite y1) \<and> b = (Finite x2, Finite y2) \<and>
              \<bar>x1 + x2\<bar> < overflow_threshold \<and> \<bar>y1 + y2\<bar> < overflow_threshold \<longrightarrow>
              map_of pos n = Some (Finite (x1 + x2), Finite (y1 + y2))) \<and>
           (solver_contract sl \<and> solver_bounded sl \<and> distinct (map fst part) \<longrightarrow>
              (\<exists>x1 y1 x2 y2.
                 a = (Finite x1, Finite y1) \<and> b = (Finite x2, Finite y2) \<and>
                 map_of pos n = Some (Finite (x1 + x2), Finite (y1 + y2)))) \<and>
           intra_scale < inter_scale"
    by (intro conjI)
  then show ?thesis by (intro exI)
qed

theorem community_layout_adds_anchor_and_offset_witness:
  "community_layout slant_solver 0 example_graph example_partition =
     (Inr [(1, Finite 0, Finite (- (5 / 4))), (2, Finite (1 / 3), Finite (- (3 / 2))),
           (3, Finite (3 / 2), Finite (- (11 / 5))), (4, Finite (7 / 4), Finite (- (12 / 5)))], 3) \<and>
   4 \<in> set (nodes example_graph) \<and>
   solver_contract slant_solver \<and> solver_bounded slant_solver \<and>
   distinct (map fst example_partition) \<and>
   (\<exists>pc r1 pn.
      position_communities slant_solver 0 example_graph example_partition 3 = (Inr pc, r1) \<and>
      position_nodes slant_solver r1 example_graph example_partition 1 = (pn, 3) \<and>
      map_of pc 4 = Some (Finite (3 / 2), Finite (- 2)) \<and>
      map_of pn 4 = Some (Finite (1 / 4), Finite (- (2 / 5))) \<and>
      \<bar>3 / 2 + 1 / 4\<bar> < overflow_threshold \<and> \<bar>- 2 + - (2 / 5)\<bar> < overflow_threshold \<and>
      map_of [(1, Finite 0, Finite (- (5 / 4))), (2, Finite (1 / 3), Finite (- (3 / 2))),
              (3, Finite (3 / 2), Finite (- (11 / 5))),
              (4::int, Finite (7 / 4), Finite (- (12 / 5)))] 4
        = Some (Finite (3 / 2 + 1 / 4), Finite (- 2 + - (2 / 5))))"
proof -
  let ?pos = "[(1, Finite 0, Finite (- (5 / 4))), (2, Finite (1 / 3), Finite (- (3 / 2))),
              (3, Finite (3 / 2), Finite (- (11 / 5))),
              (4::int, Finite (7 / 4), Finite (- (12 / 5)))]"
  have n: "4 \<in> set (nodes example_graph)" by (simp add: example_graph_def)
  have d: "distinct (map fst example_partition)" by (simp add: example_partition_def)
  from community_layout_adds_anchor_and_offset[OF slant_layout n]
  obtain pc r1 pn a b where
    pc: "position_communities slant_solver 0 example_graph example_partition 3 = (Inr pc, r1)" and
    pn: "position_nodes slant_solver r1 example_graph example_partition 1 = (pn, 3)" and
    a: "map_of pc 4 = Some a" and b: "map_of pn 4 = Some b" and
    sums: "\<forall>x1 y1 x2 y2.
              a = (Finite x1, Finite y1) \<and> b = (Finite x2, Finite y2) \<and>
              \<bar>x1 + x2\<bar> < overflow_threshold \<and> \<bar>y1 + y2\<bar> < overflow_threshold \<longrightarrow>
              map_of ?pos 4 = Some (Finite (x1 + x2), Finite (y1 + y2))"
    by (elim exE conjE)
  from pc have r1: "r1 = 1" and pcv: "pc = [(1, Finite 0, Finite (- 1)), (2, Finite 0, Finite (- 1)),
           (3, Finite (3 / 2), Finite (- 2)), (4, Finite (3 / 2), Finite (- 2))]"
    by (simp_all add: slant_anchors)
  from pn have pnv: "pn = [(1, Finite 0, Finite (- (1 / 4))), (2, Finite (1 / 3), Finite (- (1 / 2))),
       (3, Finite 0, Finite (- (1 / 5))), (4, Finite (1 / 4), Finite (- (2 / 5)))]"
    unfolding r1 slant_offsets by simp
  from a pcv have av: "a = (Finite (3 / 2), Finite (- 2))" by simp
  from b pnv have bv: "b = (Finite (1 / 4), Finite (- (2 / 5)))" by simp
  have t1: "\<bar>3 / 2 + 1 / 4\<bar> < overflow_threshold"
    and t2: "\<bar>- 2 + - (2 / 5)\<bar> < overflow_threshold"
    by (simp_all add: overflow_threshold_def)
  from sums have "a = (Finite (3 / 2), Finite (- 2)) \<and> b = (Finite (1 / 4), Finite (- (2 / 5))) \<and>
      \<bar>3 / 2 + 1 / 4\<bar> < overflow_threshold \<and> \<bar>- 2 + - (2 / 5)\<bar> < overflow_threshold \<longrightarrow>
      map_of ?pos 4 = Some (Finite (3 / 2 + 1 / 4), Finite (- 2 + - (2 / 5)))"
    by (elim allE)
  with av bv t1 t2 have s: "map_of ?pos 4 = Some (Finite (3 / 2 + 1 / 4), Finite (- 2 + - (2 / 5)))"
    by (elim impE) (intro conjI)
  from pc pn a[unfolded av] b[unfolded bv] t1 t2 s
  have "position_communities slant_solver 0 example_graph example_partition 3 = (Inr pc, r1) \<and>
      position_nodes slant_solver r1 example_graph example_partition 1 = (pn, 3) \<and>
      map_of pc 4 = Some (Finite (3 / 2), Finite (- 2)) \<and>
      map_of pn 4 = Some (Finite (1 / 4), Finite (- (2 / 5))) \<and>
      \<bar>3 / 2 + 1 / 4\<bar> < overflow_threshold \<and> \<bar>- 2 + - (2 / 5)\<bar> < overflow_threshold \<and>
      map_of ?pos 4 = Some (Finite (3 / 2 + 1 / 4), Finite (- 2 + - (2 / 5)))"
    by (intro conjI)
  then have "\<exists>pc r1 pn.
      position_communities slant_solver 0 example_graph example_partition 3 = (Inr pc, r1) \<and>
      position_nodes slant_solver r1 example_graph example_partition 1 = (pn, 3) \<and>
      map_of pc 4 = Some (Finite (3 / 2), Finite (- 2)) \<and>
      map_of pn 4 = Some (Finite (1 / 4), Finite (- (2 / 5))) \<and>
      \<bar>3 / 2 + 1 / 4\<bar> < overflow_threshold \<and> \<bar>- 2 + - (2 / 5)\<bar> < overflow_threshold \<and>
      map_of ?pos 4 = Some (Finite (3 / 2 + 1 / 4), Finite (- 2 + - (2 / 5)))"
    by (intro exI)
  with slant_layout n slant_solver_contract slant_solver_bounded d show ?thesis
    by (intro conjI)
qed

text \<open>
  C4.  If some node of the graph has no entry in the partition, \<^verbatim>\<open>community_layout\<close> raises
  \<^verbatim>\<open>KeyError\<close> and returns no positions, whatever the solver does: a node on an edge
  fails the lookup \<^verbatim>\<open>partition[ni]\<close> of the crossing-edge loop, an isolated node has
  no anchor and fails the lookup \<^verbatim>\<open>pos_communities[node]\<close> of the final loop.
\<close>

theorem community_layout_missing_node_raises:
  assumes "n \<in> set (nodes g)" "n \<notin> fst ` set part"
  shows "\<exists>k r'. community_layout sl r g part = (Inl (KeyError k), r')"
proof -
  obtain res r1 where pc: "position_communities sl r g part inter_scale = (res, r1)"
    by (cases "position_communities sl r g part inter_scale")
  show ?thesis
  proof (cases res)
    case (Inl e)
    obtain k where "e = KeyError k" by (cases e)
    with pc Inl have "community_layout sl r g part = (Inl (KeyError k), r1)"
      by (simp add: community_layout_def)
    then show ?thesis by (intro exI)
  next
    case (Inr pcs)
    with pc have "fst ` set pcs = fst ` set part"
      by (simp add: position_communities_keys)
    with assms(2) have none: "map_of pcs n = None" by (simp add: map_of_eq_None_iff)
    obtain pn r2 where pn: "position_nodes sl r1 g part intra_scale = (pn, r2)"
      by (cases "position_nodes sl r1 g part intra_scale")
    from combine_loop_fails[OF assms(1), of pcs pn "[]"] none obtain k where
      "combine_loop (nodes g) pcs pn [] = Inl (KeyError k)" by blast
    with pc Inr pn have "community_layout sl r g part = (Inl (KeyError k), r2)"
      by (simp add: community_layout_def)
    then show ?thesis by (intro exI)
  qed
qed

theorem community_layout_missing_node_raises_witness:
  "4 \<in> set (nodes example_graph) \<and> (4::int) \<notin> fst ` set [(1, 0::int), (2, 0), (3, 1)] \<and>
   community_layout line_solver 0 example_graph [(1, 0), (2, 0), (3, 1)] = (Inl (KeyError 4), 0) \<and>
   5 \<in> set (nodes \<lparr>directed = False, nodes = [1, 2, 5], edges = [(1, 2, None)]\<rparr>) \<and>
   (5::int) \<notin> fst ` set [(1, 0::int), (2, 0)] \<and>
   (\<exists>k r'. community_layout line_solver 0
       \<lparr>directed = False, nodes = [1, 2, 5], edges = [(1, 2, None)]\<rparr> [(1, 0), (2, 0)]
     = (Inl (KeyError k), r'))"
proof -
  have a: "4 \<in> set (nodes example_graph)" by (simp add: example_graph_def)
  have b: "(4::int) \<notin> fst ` set [(1, 0::int), (2, 0), (3, 1)]" by simp
  have c: "5 \<in> set (nodes \<lparr>directed = False, nodes = [1, 2, 5], edges = [(1, 2, None)]\<rparr>)"
    by simp
  have d: "(5::int) \<notin> fst ` set [(1, 0::int), (2, 0)]" by simp
  have e: "community_layout line_solver 0 example_graph [(1, 0), (2, 0), (3, 1)]
      = (Inl (KeyError 4), 0)"
    by (simp add: community_layout_def position_communities_def find_between_community_edges_def
        example_graph_def edge_pairs_def)
  from a b e c d community_layout_missing_node_raises[OF c d, of line_solver 0]
  show ?thesis by (intro conjI)
qed

text \<open>
  C10.  Entries of the partition for ids that are not nodes of the graph raise no error
  and leave no trace in the result: when the partition covers the nodes of the graph (and
  may hold more keys), \<^verbatim>\<open>community_layout\<close> returns, the keys of its result are exactly
  the nodes of the graph, and no further key of the partition is among them.  The offsets
  of \<^verbatim>\<open>_position_nodes\<close> exist for the partition's keys that are nodes of the graph only,
  because \<^verbatim>\<open>g.subgraph\<close> drops the other ids.
\<close>

theorem community_layout_ignores_foreign_partition_keys:
  assumes "solver_contract sl" "wf_graph g" "covers part g"
  shows "\<exists>pos r'. community_layout sl r g part = (Inr pos, r') \<and>
           fst ` set pos = set (nodes g) \<and>
           (\<forall>k \<in> fst ` set part - set (nodes g). map_of pos k = None) \<and>
           fst ` set (fst (position_nodes sl r1 g part s)) = set (nodes g) \<inter> fst ` set part \<and>
           set (nodes (subgraph g ns)) = set (nodes g) \<inter> set ns"
proof -
  obtain pc r1' pn r2 pos where
    "position_communities sl r g part inter_scale = (Inr pc, r1')"
    "position_nodes sl r1' g part intra_scale = (pn, r2)" and
    res: "community_layout sl r g part = (Inr pos, r2)" and
    "distinct (map fst pos)" and k: "fst ` set pos = set (nodes g)" and
    "\<forall>n \<in> set (nodes g). \<exists>a b. map_of pc n = Some a \<and> map_of pn n = Some b \<and>
            map_of pos n = Some (vadd a b)"
    by (rule community_layout_covered[OF assms, of r])
  have a: "\<forall>k \<in> fst ` set part - set (nodes g). map_of pos k = None"
  proof
    fix k' assume "k' \<in> fst ` set part - set (nodes g)"
    then show "map_of pos k' = None" using k by (simp add: map_of_eq_None_iff)
  qed
  have b: "fst ` set (fst (position_nodes sl r1 g part s)) = set (nodes g) \<inter> fst ` set part"
    by (rule position_nodes_keys[OF assms(1)])
  have c: "set (nodes (subgraph g ns)) = set (nodes g) \<inter> set ns"
    by (rule nodes_subgraph)
  from res k a b c have "community_layout sl r g part = (Inr pos, r2) \<and>
           fst ` set pos = set (nodes g) \<and>
           (\<forall>k \<in> fst ` set part - set (nodes g). map_of pos k = None) \<and>
           fst ` set (fst (position_nodes sl r1 g part s)) = set (nodes g) \<inter> fst ` set part \<and>
           set (nodes (subgraph g ns)) = set (nodes g) \<inter> set ns"
    by (intro conjI)
  then show ?thesis by (intro exI)
qed

theorem community_layout_ignores_foreign_partition_keys_witness:
  "solver_contract line_solver \<and> wf_graph example_graph \<and>
   covers (example_partition @ [(7, 5)]) example_graph \<and>
   7 \<in> fst ` set (example_partition @ [(7, 5)]) - set (nodes example_graph) \<and>
   (\<exists>pos r'. community_layout line_solver 0 example_graph (example_partition @ [(7, 5)])
        = (Inr pos, r') \<and>
      fst ` set pos = {1, 2, 3, 4} \<and> map_of pos 7 = None \<and>
      fst ` set (fst (position_nodes line_solver 1 example_graph (example_partition @ [(7, 5)]) 1))
        = {1, 2, 3, 4} \<and>
      set (nodes (subgraph example_graph [7])) = {})"
proof -
  have w: "wf_graph example_graph"
    by (simp add: wf_graph_def example_graph_def edge_pairs_def)
  have c: "covers (example_partition @ [(7, 5)]) example_graph"
    by (simp add: covers_def example_graph_def example_partition_def)
  have m: "7 \<in> fst ` set (example_partition @ [(7, 5)]) - set (nodes example_graph)"
    by (simp add: example_graph_def example_partition_def)
  have n: "set (nodes example_graph) = {1, 2, 3, 4}" by (simp add: example_graph_def)
  have i: "set (nodes example_graph) \<inter> fst ` set (example_partition @ [(7, 5)]) = {1, 2, 3, 4}"
    by (simp add: example_graph_def example_partition_def)
  have j: "set (nodes example_graph) \<inter> set [7] = {}" by (simp add: example_graph_def)
  from community_layout_ignores_foreign_partition_keys[OF line_solver_contract w c,
      of 0 1 1 "[7]"]
  obtain pos r' where
    p1: "community_layout line_solver 0 example_graph (example_partition @ [(7, 5)]) = (Inr pos, r')"
    and p2: "fst ` set pos = set (nodes example_graph)"
    and p3: "\<forall>k \<in> fst ` set (example_partition @ [(7, 5)]) - set (nodes example_graph).
          map_of pos k = None"
    and p4: "fst ` set (fst (position_nodes line_solver 1 example_graph (example_partition @ [(7, 5)]) 1))
        = set (nodes example_graph) \<inter> fst ` set (example_partition @ [(7, 5)])"
    and p5: "set (nodes (subgraph example_graph [7])) = set (nodes example_graph) \<inter> set [7]"
    by (elim exE conjE)
  from p3 m have q3: "map_of pos 7 = None" by (rule bspec)
  from p2 n have q2: "fst ` set pos = {1, 2, 3, 4}" by simp
  from p4 i have q4: "fst ` set (fst (position_nodes line_solver 1 example_graph
      (example_partition @ [(7, 5)]) 1)) = {1, 2, 3, 4}" by (rule trans)
  from p5 j have q5: "set (nodes (subgraph example_graph [7])) = {}" by (rule trans)
  from p1 q2 q3 q4 q5 have "community_layout line_solver 0 example_graph (example_partition @ [(7, 5)])
        = (Inr pos, r') \<and>
      fst ` set pos = {1, 2, 3, 4} \<and> map_of pos 7 = None \<and>
      fst ` set (fst (position_nodes line_solver 1 example_graph (example_partition @ [(7, 5)]) 1))
        = {1, 2, 3, 4} \<and>
      set (nodes (subgraph example_graph [7])) = {}"
    by (intro conjI)
  then have "\<exists>pos r'. community_layout line_solver 0 example_graph (example_partition @ [(7, 5)])
        = (Inr pos, r') \<and>
      fst ` set pos = {1, 2, 3, 4} \<and> map_of pos 7 = None \<and>
      fst ` set (fst (position_nodes line_solver 1 example_graph (example_partition @ [(7, 5)]) 1))
        = {1, 2, 3, 4} \<and>
      set (nodes (subgraph example_graph [7])) = {}" by (intro exI)
  with line_solver_contract w c m show ?thesis by (intro conjI)
qed







text \<open>
  C8.  Degenerate inputs are laid out like any other.  For a graph covered by the partition
  and a solver that keeps its contract: every community, with or without crossing edges,
  is a node of the meta-graph (it comes from \<^verbatim>\<open>add_nodes_from\<close>) and every key of the
  partition gets a finite anchor; every node of the graph, also the only member of a
  community and a node without edges, gets a finite offset; and \<^verbatim>\<open>community_layout\<close>
  returns finite positions for exactly the nodes of the graph.  On the empty graph it
  returns the empty dict.
\<close>

theorem degenerate_inputs_are_laid_out:
  assumes "solver_contract sl" "solver_bounded sl" "wf_graph g" "covers part g"
  shows "(\<exists>m. find_between_community_edges g part = Inr m \<and>
              set (nodes (build_hypergraph part m)) = snd ` set part) \<and>
         (\<exists>pc r1. position_communities sl r g part inter_scale = (Inr pc, r1) \<and>
            (\<forall>n \<in> fst ` set part. \<exists>a. map_of pc n = Some a \<and> finite_point a) \<and>
            (\<forall>n \<in> set (nodes g).
               \<exists>b. map_of (fst (position_nodes sl r1 g part intra_scale)) n = Some b \<and>
                   finite_point b)) \<and>
         (\<exists>pos r2. community_layout sl r g part = (Inr pos, r2) \<and>
            fst ` set pos = set (nodes g) \<and> (\<forall>(n, p) \<in> set pos. finite_point p)) \<and>
         fst (community_layout sl r \<lparr>directed = d, nodes = [], edges = []\<rparr> []) = Inr []"
proof -
  obtain m where m: "find_between_community_edges g part = Inr m"
    using find_between_total[OF assms(3,4)] by blast
  then have hn: "set (nodes (build_hypergraph part m)) = snd ` set part"
    by (rule hypergraph_nodes)
  obtain pc r1 pn r2 pos where
    pc: "position_communities sl r g part inter_scale = (Inr pc, r1)" and
    pn: "position_nodes sl r1 g part intra_scale = (pn, r2)" and
    res: "community_layout sl r g part = (Inr pos, r2)" and
    d: "distinct (map fst pos)" and k: "fst ` set pos = set (nodes g)" and
    fin: "\<forall>(n, p) \<in> set pos. finite_point p" and
    fa: "\<forall>n \<in> fst ` set part. \<exists>a. map_of pc n = Some a \<and> finite_point a" and
    fb: "\<forall>n \<in> set (nodes g). \<exists>b. map_of pn n = Some b \<and> finite_point b"
    by (rule community_layout_finite[OF assms, of r])
  from pn have pn': "fst (position_nodes sl r1 g part intra_scale) = pn" by simp
  from m hn have c1: "\<exists>m. find_between_community_edges g part = Inr m \<and>
              set (nodes (build_hypergraph part m)) = snd ` set part" by blast
  from pc fa fb have "position_communities sl r g part inter_scale = (Inr pc, r1) \<and>
            (\<forall>n \<in> fst ` set part. \<exists>a. map_of pc n = Some a \<and> finite_point a) \<and>
            (\<forall>n \<in> set (nodes g).
               \<exists>b. map_of (fst (position_nodes sl r1 g part intra_scale)) n = Some b \<and>
                   finite_point b)"
    unfolding pn' by (intro conjI)
  then have c2: "\<exists>pc r1. position_communities sl r g part inter_scale = (Inr pc, r1) \<and>
            (\<forall>n \<in> fst ` set part. \<exists>a. map_of pc n = Some a \<and> finite_point a) \<and>
            (\<forall>n \<in> set (nodes g).
               \<exists>b. map_of (fst (position_nodes sl r1 g part intra_scale)) n = Some b \<and>
                   finite_point b)"
    by (intro exI)
  from res k fin have "community_layout sl r g part = (Inr pos, r2) \<and>
            fst ` set pos = set (nodes g) \<and> (\<forall>(n, p) \<in> set pos. finite_point p)"
    by (intro conjI)
  then have c3: "\<exists>pos r2. community_layout sl r g part = (Inr pos, r2) \<and>
            fst ` set pos = set (nodes g) \<and> (\<forall>(n, p) \<in> set pos. finite_point p)"
    by (intro exI)
  from c1 c2 c3 community_layout_empty[of sl r d] show ?thesis by (intro conjI)
qed

theorem degenerate_inputs_are_laid_out_witness:
  "solver_contract line_solver \<and> solver_bounded line_solver \<and>
   wf_graph \<lparr>directed = False, nodes = [1, 2], edges = []\<rparr> \<and>
   covers [(1, 0), (2, 5)] \<lparr>directed = False, nodes = [1, 2], edges = []\<rparr> \<and>
   find_between_community_edges \<lparr>directed = False, nodes = [1, 2], edges = []\<rparr> [(1, 0), (2, 5)]
     = Inr [] \<and>
   set (nodes (build_hypergraph [(1, 0), (2, 5)] [])) = {0, 5} \<and>
   (\<exists>pos r2. community_layout line_solver 0
        \<lparr>directed = False, nodes = [1, 2], edges = []\<rparr> [(1, 0), (2, 5)] = (Inr pos, r2) \<and>
      fst ` set pos = {1, 2} \<and> (\<forall>(n, p) \<in> set pos. finite_point p)) \<and>
   fst (community_layout line_solver 0 \<lparr>directed = False, nodes = [], edges = []\<rparr> []) = Inr []"
proof -
  let ?g = "\<lparr>directed = False, nodes = [1, 2], edges = []\<rparr>"
  let ?p = "[(1::int, 0::int), (2, 5)]"
  have w: "wf_graph ?g" by (simp add: wf_graph_def edge_pairs_def)
  have c: "covers ?p ?g" by (simp add: covers_def)
  have f: "find_between_community_edges ?g ?p = Inr []"
    by (simp add: find_between_community_edges_def edge_pairs_def)
  note th = degenerate_inputs_are_laid_out[OF line_solver_contract line_solver_bounded w c,
      of 0 False]
  from th have "\<exists>m. find_between_community_edges ?g ?p = Inr m \<and>
      set (nodes (build_hypergraph ?p m)) = snd ` set ?p" by (rule conjunct1)
  then have h: "set (nodes (build_hypergraph ?p [])) = {0, 5}"
    unfolding f by auto
  from th have "\<exists>pos r2. community_layout line_solver 0 ?g ?p = (Inr pos, r2) \<and>
      fst ` set pos = set (nodes ?g) \<and> (\<forall>(n, p) \<in> set pos. finite_point p)"
    by (elim conjE)
  then have l: "\<exists>pos r2. community_layout line_solver 0 ?g ?p = (Inr pos, r2) \<and>
      fst ` set pos = {1, 2} \<and> (\<forall>(n, p) \<in> set pos. finite_point p)"
    by simp
  from th have e: "fst (community_layout line_solver 0
      \<lparr>directed = False, nodes = [], edges = []\<rparr> []) = Inr []"
    by (elim conjE)
  from line_solver_contract line_solver_bounded w c f h l e show ?thesis by (intro conjI)
qed



end
